theory Spec2Isabelle
  imports Main "HOL-Library.AList"
begin

section \<open>Type descriptors\<close>

text \<open>
  A \<open>reflect.Type\<close> is modelled by the term \<open>rtype\<close>. The seventeen scalar kinds are the
  constructors of \<open>basic\<close>. A struct type is identified by its name and its fields are
  looked up in the program's declarations, which is what lets a struct refer to itself
  through a pointer, slice or map. \<open>TNamed n u\<close> is a defined non-struct type with
  underlying type \<open>u\<close>. The source's \<open>switch t.Kind()\<close> is a case distinction on the
  constructor of the underlying type.
\<close>

datatype basic =
    Bool | IntK | Int8 | Int16 | Int32 | Int64
  | Uint | Uint8 | Uint16 | Uint32 | Uint64 | Uintptr
  | Float32 | Float64 | Complex64 | Complex128 | String

datatype rtype =
    TBasic basic
  | TArray nat rtype
  | TChan rtype
  | TFunc string
  | TInterface string
  | TMap rtype rtype
  | TPtr rtype
  | TSlice rtype
  | TStruct string
  | TUnsafePointer
  | TNamed string rtype

record StructField =
  Name :: string
  PkgPath :: string
  Type :: rtype

fun underlying :: "rtype \<Rightarrow> rtype" where
  "underlying (TNamed n u) = underlying u"
| "underlying t = t"

fun basic_String :: "basic \<Rightarrow> string" where
  "basic_String Bool = ''bool''"
| "basic_String IntK = ''int''"
| "basic_String Int8 = ''int8''"
| "basic_String Int16 = ''int16''"
| "basic_String Int32 = ''int32''"
| "basic_String Int64 = ''int64''"
| "basic_String Uint = ''uint''"
| "basic_String Uint8 = ''uint8''"
| "basic_String Uint16 = ''uint16''"
| "basic_String Uint32 = ''uint32''"
| "basic_String Uint64 = ''uint64''"
| "basic_String Uintptr = ''uintptr''"
| "basic_String Float32 = ''float32''"
| "basic_String Float64 = ''float64''"
| "basic_String Complex64 = ''complex64''"
| "basic_String Complex128 = ''complex128''"
| "basic_String String = ''string''"

fun decimal :: "nat \<Rightarrow> string" where
  "decimal n = (if n < 10 then [char_of (48 + n)]
                else decimal (n div 10) @ [char_of (48 + n mod 10)])"

declare decimal.simps [simp del]

text \<open>\<open>t.String()\<close>, used only for the diagnostic \<open>TypeName\<close>.\<close>

fun rtype_String :: "rtype \<Rightarrow> string" where
  "rtype_String (TBasic b) = basic_String b"
| "rtype_String (TArray k e) = ''['' @ decimal k @ '']'' @ rtype_String e"
| "rtype_String (TChan e) = ''chan '' @ rtype_String e"
| "rtype_String (TFunc n) = n"
| "rtype_String (TInterface n) = n"
| "rtype_String (TMap k e) = ''map['' @ rtype_String k @ '']'' @ rtype_String e"
| "rtype_String (TPtr e) = ''*'' @ rtype_String e"
| "rtype_String (TSlice e) = ''[]'' @ rtype_String e"
| "rtype_String (TStruct n) = n"
| "rtype_String TUnsafePointer = ''unsafe.Pointer''"
| "rtype_String (TNamed n u) = n"

section \<open>Type analysis\<close>

text \<open>
  \<open>TypeAnalysisResult\<close> objects are shared by pointer: a result is registered in the
  \<open>visited\<close> map before its fields are filled in, and \<open>FieldAnalysis\<close> stores pointers.
  The model therefore keeps the result objects in a store (a list, a pointer being an
  index) and \<open>FieldAnalysis\<close> maps field names to indices. \<open>None\<close> is the nil map.
\<close>

record TypeAnalysisResult =
  IsOnlyValues :: bool
  ContainsPtr :: bool
  ContainsSlice :: bool
  ContainsMap :: bool
  ContainsChan :: bool
  ContainsFunc :: bool
  ContainsIface :: bool
  FieldAnalysis :: "(string \<times> nat) list option"
  TypeName :: string

definition newResult :: "string \<Rightarrow> TypeAnalysisResult" where
  "newResult n = \<lparr>IsOnlyValues = False, ContainsPtr = False, ContainsSlice = False,
     ContainsMap = False, ContainsChan = False, ContainsFunc = False, ContainsIface = False,
     FieldAnalysis = None, TypeName = n\<rparr>"

text \<open>The state of one analysis pass: the store of result objects and the pass's
  \<open>visited\<close> map from type descriptors to result pointers.\<close>

record analysis_state =
  results :: "TypeAnalysisResult list"
  visitedT :: "rtype \<rightharpoonup> nat"

definition modify :: "nat \<Rightarrow> (TypeAnalysisResult \<Rightarrow> TypeAnalysisResult) \<Rightarrow> analysis_state \<Rightarrow> analysis_state" where
  "modify p f st = st\<lparr>results := (results st)[p := f (results st ! p)]\<rparr>"

definition declaredFields :: "(string \<times> StructField list) list \<Rightarrow> string \<Rightarrow> StructField list" where
  "declaredFields decls n = (case map_of decls n of Some fs \<Rightarrow> fs | None \<Rightarrow> [])"

text \<open>The body of the field loop after the recursive call: store the pointer in
  \<open>FieldAnalysis\<close> and fold the field's flags into the struct's.\<close>

definition mergeField :: "string \<Rightarrow> nat \<Rightarrow> TypeAnalysisResult \<Rightarrow> TypeAnalysisResult \<Rightarrow> TypeAnalysisResult" where
  "mergeField fname p fieldResult r =
     r\<lparr>FieldAnalysis := Some (AList.update fname p (case FieldAnalysis r of None \<Rightarrow> [] | Some m \<Rightarrow> m)),
       IsOnlyValues := (if \<not> IsOnlyValues fieldResult then False else IsOnlyValues r),
       ContainsPtr := (if ContainsPtr fieldResult then True else ContainsPtr r),
       ContainsSlice := (if ContainsSlice fieldResult then True else ContainsSlice r),
       ContainsMap := (if ContainsMap fieldResult then True else ContainsMap r),
       ContainsChan := (if ContainsChan fieldResult then True else ContainsChan r),
       ContainsFunc := (if ContainsFunc fieldResult then True else ContainsFunc r),
       ContainsIface := (if ContainsIface fieldResult then True else ContainsIface r)\<rparr>"

text \<open>The assignments after the recursive call in the array, pointer, slice and map
  cases; the argument is the element's (key's, value's) result as read at that moment.\<close>

definition inheritArray :: "TypeAnalysisResult \<Rightarrow> TypeAnalysisResult \<Rightarrow> TypeAnalysisResult" where
  "inheritArray er r = r\<lparr>IsOnlyValues := IsOnlyValues er,
     ContainsPtr := ContainsPtr er, ContainsSlice := ContainsSlice er,
     ContainsMap := ContainsMap er, ContainsChan := ContainsChan er,
     ContainsFunc := ContainsFunc er, ContainsIface := ContainsIface er\<rparr>"

definition inheritPtr :: "TypeAnalysisResult \<Rightarrow> TypeAnalysisResult \<Rightarrow> TypeAnalysisResult" where
  "inheritPtr er r = r\<lparr>ContainsSlice := ContainsSlice er,
     ContainsMap := ContainsMap er, ContainsChan := ContainsChan er,
     ContainsFunc := ContainsFunc er, ContainsIface := ContainsIface er\<rparr>"

definition inheritSlice :: "TypeAnalysisResult \<Rightarrow> TypeAnalysisResult \<Rightarrow> TypeAnalysisResult" where
  "inheritSlice er r = r\<lparr>ContainsPtr := ContainsPtr er,
     ContainsMap := ContainsMap er, ContainsChan := ContainsChan er,
     ContainsFunc := ContainsFunc er, ContainsIface := ContainsIface er\<rparr>"

definition inheritMap :: "TypeAnalysisResult \<Rightarrow> TypeAnalysisResult \<Rightarrow> TypeAnalysisResult \<Rightarrow> TypeAnalysisResult" where
  "inheritMap kr vr r = r\<lparr>ContainsPtr := ContainsPtr kr \<or> ContainsPtr vr,
     ContainsSlice := ContainsSlice kr \<or> ContainsSlice vr,
     ContainsChan := ContainsChan kr \<or> ContainsChan vr,
     ContainsFunc := ContainsFunc kr \<or> ContainsFunc vr,
     ContainsIface := ContainsIface kr \<or> ContainsIface vr\<rparr>"

text \<open>
  \<open>result := &TypeAnalysisResult{TypeName: t.String()}; visited[t] = result\<close>: the
  new object is the next one in the store.
\<close>

definition register :: "rtype \<Rightarrow> analysis_state \<Rightarrow> analysis_state" where
  "register t st = st\<lparr>results := results st @ [newResult (rtype_String t)],
                       visitedT := (visitedT st)(t \<mapsto> length (results st))\<rparr>"

text \<open>
  The start of the struct case: \<open>IsOnlyValues = true\<close>, an empty \<open>FieldAnalysis\<close>, then the
  first loop, which looks for a field with a non-empty \<open>PkgPath\<close>, and the reset of
  \<open>IsOnlyValues\<close> when there is one.
\<close>

definition structPrologue :: "nat \<Rightarrow> StructField list \<Rightarrow> analysis_state \<Rightarrow> analysis_state" where
  "structPrologue result fs st =
     (if list_ex (\<lambda>field. PkgPath field \<noteq> []) fs
      then modify result (\<lambda>r. r\<lparr>IsOnlyValues := False\<rparr>)
             (modify result (\<lambda>r. r\<lparr>IsOnlyValues := True, FieldAnalysis := Some []\<rparr>) st)
      else modify result (\<lambda>r. r\<lparr>IsOnlyValues := True, FieldAnalysis := Some []\<rparr>) st)"

text \<open>
  \<open>analyzeTypeRecursive\<close>. The first argument bounds the depth of the recursion; \<open>None\<close>
  means the bound was reached. \<open>length (results st)\<close> is the pointer \<open>result\<close> of the new
  object. The second loop of the struct case is \<open>analyzeFields\<close>: it skips the fields with
  a non-empty \<open>PkgPath\<close> and analyses the others.
\<close>

function (sequential) analyzeTypeRecursive ::
  "nat \<Rightarrow> (string \<times> StructField list) list \<Rightarrow> rtype \<Rightarrow> analysis_state \<Rightarrow> (nat \<times> analysis_state) option"
  and analyzeFields ::
  "nat \<Rightarrow> (string \<times> StructField list) list \<Rightarrow> nat \<Rightarrow> StructField list \<Rightarrow> analysis_state \<Rightarrow> analysis_state option"
  where
  "analyzeTypeRecursive 0 decls t st = None"
| "analyzeTypeRecursive (Suc n) decls t st =
    (case visitedT st t of
       Some result \<Rightarrow> Some (result, st)
     | None \<Rightarrow>
        (case underlying t of
           TBasic b \<Rightarrow>
             Some (length (results st),
                   modify (length (results st)) (\<lambda>r. r\<lparr>IsOnlyValues := True\<rparr>) (register t st))
         | TArray k e \<Rightarrow>
             (case analyzeTypeRecursive n decls e (register t st) of
                None \<Rightarrow> None
              | Some (elemResult, st2) \<Rightarrow>
                  Some (length (results st),
                        modify (length (results st)) (inheritArray (results st2 ! elemResult)) st2))
         | TStruct name \<Rightarrow>
             (case analyzeFields n decls (length (results st)) (declaredFields decls name)
                     (structPrologue (length (results st)) (declaredFields decls name) (register t st)) of
                None \<Rightarrow> None
              | Some st4 \<Rightarrow> Some (length (results st), st4))
         | TPtr e \<Rightarrow>
             (case analyzeTypeRecursive n decls e
                     (modify (length (results st)) (\<lambda>r. r\<lparr>IsOnlyValues := False, ContainsPtr := True\<rparr>)
                        (register t st)) of
                None \<Rightarrow> None
              | Some (elemResult, st3) \<Rightarrow>
                  Some (length (results st),
                        modify (length (results st)) (inheritPtr (results st3 ! elemResult)) st3))
         | TSlice e \<Rightarrow>
             (case analyzeTypeRecursive n decls e
                     (modify (length (results st)) (\<lambda>r. r\<lparr>IsOnlyValues := False, ContainsSlice := True\<rparr>)
                        (register t st)) of
                None \<Rightarrow> None
              | Some (elemResult, st3) \<Rightarrow>
                  Some (length (results st),
                        modify (length (results st)) (inheritSlice (results st3 ! elemResult)) st3))
         | TMap k e \<Rightarrow>
             (case analyzeTypeRecursive n decls k
                     (modify (length (results st)) (\<lambda>r. r\<lparr>IsOnlyValues := False, ContainsMap := True\<rparr>)
                        (register t st)) of
                None \<Rightarrow> None
              | Some (keyResult, st3) \<Rightarrow>
                  (case analyzeTypeRecursive n decls e st3 of
                     None \<Rightarrow> None
                   | Some (valueResult, st4) \<Rightarrow>
                       Some (length (results st),
                             modify (length (results st))
                               (inheritMap (results st4 ! keyResult) (results st4 ! valueResult)) st4)))
         | TChan e \<Rightarrow>
             Some (length (results st),
                   modify (length (results st)) (\<lambda>r. r\<lparr>IsOnlyValues := False, ContainsChan := True\<rparr>)
                     (register t st))
         | TFunc f \<Rightarrow>
             Some (length (results st),
                   modify (length (results st)) (\<lambda>r. r\<lparr>IsOnlyValues := False, ContainsFunc := True\<rparr>)
                     (register t st))
         | TInterface i \<Rightarrow>
             Some (length (results st),
                   modify (length (results st)) (\<lambda>r. r\<lparr>IsOnlyValues := False, ContainsIface := True\<rparr>)
                     (register t st))
         | _ \<Rightarrow>
             Some (length (results st),
                   modify (length (results st)) (\<lambda>r. r\<lparr>IsOnlyValues := False\<rparr>) (register t st))))"
| "analyzeFields n decls result [] st = Some st"
| "analyzeFields n decls result (field # fs) st =
    (if PkgPath field \<noteq> [] then analyzeFields n decls result fs st
     else
      (case analyzeTypeRecursive n decls (Type field) st of
         None \<Rightarrow> None
       | Some (fieldResult, st1) \<Rightarrow>
           analyzeFields n decls result fs
             (modify result (mergeField (Name field) fieldResult (results st1 ! fieldResult)) st1)))"
  by pat_completeness auto

termination
  by (relation "inv_image (less_than <*lex*> less_than) (\<lambda>x. case x of
        Inl (n, decls, t, st) \<Rightarrow> (2 * n, 0)
      | Inr (n, decls, result, fs, st) \<Rightarrow> (2 * n + 1, length fs))") auto

section \<open>Values and memory\<close>

text \<open>
  A Go value is a term \<open>val\<close>. Pointers, slices and maps refer to objects in memory by
  address, so that source graphs can share objects and be cyclic; \<open>None\<close> is nil.
  A slice value carries the address of its backing array, its length and its capacity;
  the backing array object holds the elements below the length. An interface value carries
  its dynamic type and value. Channels and functions are opaque handles. Floating-point
  and complex scalars are represented by their bit patterns, of 32 or 64 bits for a float
  and for each part of a complex number.
\<close>

datatype scalar =
    SBool bool | SInt int | SUint nat | SFloat32 nat | SFloat64 nat
  | SComplex64 nat nat | SComplex128 nat nat | SString string

datatype val =
    VScalar scalar
  | VPtr "nat option"
  | VUnsafePointer "nat option"
  | VChan "nat option"
  | VFunc "nat option"
  | VSlice "(nat \<times> nat \<times> nat) option"
  | VMap "nat option"
  | VInterface "(rtype \<times> val) option"
  | VStruct "val list"
  | VArray "val list"

datatype obj = Cell val | Backing "val list" | MapObj "(val \<times> val) list"

text \<open>A \<open>reflect.Value\<close> is a value together with its type.\<close>

type_synonym rvalue = "rtype \<times> val"

fun zero_scalar :: "scalar \<Rightarrow> scalar" where
  "zero_scalar (SBool b) = SBool False"
| "zero_scalar (SInt i) = SInt 0"
| "zero_scalar (SUint u) = SUint 0"
| "zero_scalar (SFloat32 f) = SFloat32 0"
| "zero_scalar (SFloat64 f) = SFloat64 0"
| "zero_scalar (SComplex64 r i) = SComplex64 0 0"
| "zero_scalar (SComplex128 r i) = SComplex128 0 0"
| "zero_scalar (SString s) = SString []"

text \<open>
  \<open>reflect.Zero(v.Type())\<close> and the content of \<open>reflect.New(v.Type())\<close>: the zero value of
  the type of \<open>v\<close>. A value of a type has the shape of every other value of that type
  down to the first pointer, slice, map or interface, all of which are nil in the zero
  value, so the zero value is computed from \<open>v\<close>.
\<close>

fun zero_like :: "val \<Rightarrow> val" where
  "zero_like (VScalar s) = VScalar (zero_scalar s)"
| "zero_like (VPtr p) = VPtr None"
| "zero_like (VUnsafePointer p) = VUnsafePointer None"
| "zero_like (VChan c) = VChan None"
| "zero_like (VFunc f) = VFunc None"
| "zero_like (VSlice s) = VSlice None"
| "zero_like (VMap m) = VMap None"
| "zero_like (VInterface i) = VInterface None"
| "zero_like (VStruct vs) = VStruct (map zero_like vs)"
| "zero_like (VArray vs) = VArray (map zero_like vs)"

text \<open>
  The copier inspects a scalar in one place: \<open>original.MapIndex(key)\<close> looks the key up
  again, and finds nothing when the key is not equal to itself, that is when it holds a
  NaN: a float whose exponent bits are all set and whose fraction is not zero.
  \<open>selfEqual k\<close> is \<open>k == k\<close> for a map key.
\<close>

definition isNaN32 :: "nat \<Rightarrow> bool" where
  "isNaN32 b \<longleftrightarrow> (b div 2 ^ 23) mod 2 ^ 8 = 2 ^ 8 - 1 \<and> b mod 2 ^ 23 \<noteq> 0"

definition isNaN64 :: "nat \<Rightarrow> bool" where
  "isNaN64 b \<longleftrightarrow> (b div 2 ^ 52) mod 2 ^ 11 = 2 ^ 11 - 1 \<and> b mod 2 ^ 52 \<noteq> 0"

fun selfEqual :: "val \<Rightarrow> bool" where
  "selfEqual (VScalar (SFloat32 f)) = (\<not> isNaN32 f)"
| "selfEqual (VScalar (SFloat64 f)) = (\<not> isNaN64 f)"
| "selfEqual (VScalar (SComplex64 r i)) = (\<not> isNaN32 r \<and> \<not> isNaN32 i)"
| "selfEqual (VScalar (SComplex128 r i)) = (\<not> isNaN64 r \<and> \<not> isNaN64 i)"
| "selfEqual (VInterface (Some (t, x))) = selfEqual x"
| "selfEqual (VStruct vs) = list_all selfEqual vs"
| "selfEqual (VArray vs) = list_all selfEqual vs"
| "selfEqual v = True"

section \<open>The program: declarations and DeepCopy methods\<close>

text \<open>
  What \<open>Type().MethodByName("DeepCopy")\<close> finds for a type is a \<open>Method\<close>: the numbers of
  inputs (the receiver included) and outputs of its signature, whether \<open>Func\<close> is valid
  (it is not for the methods of an interface type), and the body. The body is user code:
  it reads memory and the receiver and returns its result together with the objects it
  allocated, which are appended to memory. \<open>hasDeepCopyMethod\<close> accepts only methods with
  one output, so the call returns exactly one value and \<open>callDeepCopy\<close>'s result is valid.
\<close>

record Method =
  NumIn :: nat
  NumOut :: nat
  FuncValid :: bool
  Func :: "obj list \<Rightarrow> val \<Rightarrow> rvalue \<times> obj list"

record universe =
  decls :: "(string \<times> StructField list) list"
  methodByName_DeepCopy :: "rtype \<Rightarrow> Method option"
  implements :: "rtype \<Rightarrow> rtype \<Rightarrow> bool"

text \<open>\<open>hasDeepCopyMethod\<close> on a valid value of type \<open>t\<close>.\<close>

definition hasDeepCopyMethod :: "universe \<Rightarrow> rtype \<Rightarrow> Method option" where
  "hasDeepCopyMethod U t =
     (case methodByName_DeepCopy U t of
        Some method \<Rightarrow>
          if FuncValid method \<and> NumIn method = 1 \<and> NumOut method = 1 then Some method else None
      | None \<Rightarrow> None)"

definition callDeepCopy :: "obj list \<Rightarrow> val \<Rightarrow> Method \<Rightarrow> rvalue \<times> obj list" where
  "callDeepCopy m v method = (case Func method m v of (result, new) \<Rightarrow> (result, m @ new))"

definition elemType :: "rtype \<Rightarrow> rtype option" where
  "elemType t = (case underlying t of
       TPtr e \<Rightarrow> Some e | TSlice e \<Rightarrow> Some e | TArray k e \<Rightarrow> Some e
     | TMap k e \<Rightarrow> Some e | TChan e \<Rightarrow> Some e | _ \<Rightarrow> None)"

definition keyType :: "rtype \<Rightarrow> rtype option" where
  "keyType t = (case underlying t of TMap k e \<Rightarrow> Some k | _ \<Rightarrow> None)"

definition structFields :: "universe \<Rightarrow> rtype \<Rightarrow> StructField list option" where
  "structFields U t = (case underlying t of TStruct n \<Rightarrow> Some (declaredFields (decls U) n) | _ \<Rightarrow> None)"

definition isInterface :: "rtype \<Rightarrow> bool" where
  "isInterface t = (case underlying t of TInterface n \<Rightarrow> True | _ \<Rightarrow> False)"

fun isNamed :: "rtype \<Rightarrow> bool" where
  "isNamed (TNamed n u) = True"
| "isNamed (TStruct n) = True"
| "isNamed (TBasic b) = True"
| "isNamed (TInterface n) = True"
| "isNamed t = False"

text \<open>
  \<open>Value.Set\<close> panics unless the value's type is assignable to the slot's type: the
  types are identical, or have identical underlying types and one of them is not a named
  type, or the slot is of an interface type that the value's type implements.
\<close>

definition assignable :: "universe \<Rightarrow> rtype \<Rightarrow> rtype \<Rightarrow> bool" where
  "assignable U x t \<longleftrightarrow>
     x = t \<or> (underlying x = underlying t \<and> (\<not> isNamed x \<or> \<not> isNamed t))
           \<or> (isInterface t \<and> implements U x t)"

section \<open>Outcomes\<close>

text \<open>
  A call returns, panics, or has not returned within the recursion depth it was given.
  \<open>Panic\<close> is also the outcome on states that no Go program can build (a dangling
  address, a value that does not fit its type).
\<close>

datatype 'a outcome = OutOfFuel | Panic | Returns 'a

fun thenDo :: "'a outcome \<Rightarrow> ('a \<Rightarrow> 'b outcome) \<Rightarrow> 'b outcome" where
  "thenDo OutOfFuel f = OutOfFuel"
| "thenDo Panic f = Panic"
| "thenDo (Returns x) f = f x"

section \<open>The recursive copy\<close>

text \<open>
  The state of one copy: memory, and the visitation table from source addresses to the
  destination recorded for them. The source stores the destination slot \<open>cpy\<close> in the
  table after setting it; every slot is written once, so the table of the model holds the
  slot's type and the pointer it was set to.
\<close>

record copy_state =
  mem :: "obj list"
  visited :: "nat \<rightharpoonup> rvalue"

definition cellAt :: "obj list \<Rightarrow> nat \<Rightarrow> val option" where
  "cellAt m a = (if a < length m then (case m ! a of Cell v \<Rightarrow> Some v | _ \<Rightarrow> None) else None)"

definition backingAt :: "obj list \<Rightarrow> nat \<Rightarrow> val list option" where
  "backingAt m a = (if a < length m then (case m ! a of Backing vs \<Rightarrow> Some vs | _ \<Rightarrow> None) else None)"

definition mapAt :: "obj list \<Rightarrow> nat \<Rightarrow> (val \<times> val) list option" where
  "mapAt m a = (if a < length m then (case m ! a of MapObj es \<Rightarrow> Some es | _ \<Rightarrow> None) else None)"

definition setChecked :: "universe \<Rightarrow> rtype \<Rightarrow> rvalue \<Rightarrow> val outcome" where
  "setChecked U t x = (if assignable U (fst x) t then Returns (snd x) else Panic)"

text \<open>\<open>SetMapIndex\<close> for each copied pair, in order.\<close>

definition setMapIndexes :: "(val \<times> val) list \<Rightarrow> (val \<times> val) list" where
  "setMapIndexes kvs = foldl (\<lambda>m kv. AList.update (fst kv) (snd kv) m) [] kvs"

text \<open>
  \<open>newPtr := reflect.New(result.Type()); newPtr.Elem().Set(result); cpy.Set(newPtr);
  visited[ptr] = cpy\<close>: the override's result is wrapped in a fresh cell.
\<close>

definition wrapResult :: "universe \<Rightarrow> rtype \<Rightarrow> nat \<Rightarrow> rvalue \<Rightarrow> copy_state \<Rightarrow> (val \<times> copy_state) outcome" where
  "wrapResult U t ptr result st =
     (let a = length (mem st)
      in thenDo (setChecked U t (TPtr (fst result), VPtr (Some a)))
           (\<lambda>c. Returns (c, st\<lparr>mem := mem st @ [Cell (snd result)],
                               visited := (visited st)(ptr \<mapsto> (t, c))\<rparr>)))"

text \<open>
  \<open>copyRecursive original cpy visited\<close>. The first argument bounds the depth of the
  recursion. \<open>cpy\<close> is the content of the destination slot before the call and the
  returned value its content after; a fresh object is given its content when its elements
  have been copied (nothing reads it before: the table holds the pointers themselves).
  The kind of \<open>original\<close> is the constructor of its value. The loops over struct fields,
  slice elements, map entries and array elements are \<open>copyFields\<close>, \<open>copyElems\<close>,
  \<open>copyEntries\<close> and \<open>copyArray\<close>; map entries are visited in the order of the list, and
  \<open>originalValue.Type()\<close> panics on the invalid value that \<open>MapIndex\<close> returns for a key
  it does not find.
\<close>

function (sequential) copyRecursive ::
  "nat \<Rightarrow> universe \<Rightarrow> rvalue \<Rightarrow> val \<Rightarrow> copy_state \<Rightarrow> (val \<times> copy_state) outcome"
  and copyFields ::
  "nat \<Rightarrow> universe \<Rightarrow> StructField list \<Rightarrow> val list \<Rightarrow> val list \<Rightarrow> copy_state
     \<Rightarrow> (val list \<times> copy_state) outcome"
  and copyElems ::
  "nat \<Rightarrow> universe \<Rightarrow> rtype \<Rightarrow> val list \<Rightarrow> copy_state \<Rightarrow> (val list \<times> copy_state) outcome"
  and copyEntries ::
  "nat \<Rightarrow> universe \<Rightarrow> rtype \<Rightarrow> rtype \<Rightarrow> (val \<times> val) list \<Rightarrow> copy_state
     \<Rightarrow> ((val \<times> val) list \<times> copy_state) outcome"
  and copyArray ::
  "nat \<Rightarrow> universe \<Rightarrow> rtype \<Rightarrow> val list \<Rightarrow> val list \<Rightarrow> copy_state
     \<Rightarrow> (val list \<times> copy_state) outcome"
  where
  "copyRecursive 0 U original cpy st = OutOfFuel"
| "copyRecursive (Suc n) U (t, v) cpy st =
    (case v of
       VPtr None \<Rightarrow> Returns (VPtr None, st)
     | VPtr (Some ptr) \<Rightarrow>
        (case visited st ptr of
           Some seen \<Rightarrow> thenDo (setChecked U t seen) (\<lambda>c. Returns (c, st))
         | None \<Rightarrow>
            (case hasDeepCopyMethod U t of
               Some method \<Rightarrow>
                 (case callDeepCopy (mem st) v method of
                    (result, m1) \<Rightarrow>
                      if fst result \<noteq> t then wrapResult U t ptr result (st\<lparr>mem := m1\<rparr>)
                      else Returns (snd result,
                             st\<lparr>mem := m1, visited := (visited st)(ptr \<mapsto> (t, snd result))\<rparr>))
             | None \<Rightarrow>
                (case (elemType t, cellAt (mem st) ptr) of
                   (Some et, Some originalValue) \<Rightarrow>
                     (case hasDeepCopyMethod U et of
                        Some method \<Rightarrow>
                          (case callDeepCopy (mem st) originalValue method of
                             (result, m1) \<Rightarrow> wrapResult U t ptr result (st\<lparr>mem := m1\<rparr>))
                      | None \<Rightarrow>
                          thenDo (copyRecursive n U (et, originalValue) (zero_like originalValue)
                                    (st\<lparr>mem := mem st @ [Cell (zero_like originalValue)],
                                        visited := (visited st)(ptr \<mapsto> (t, VPtr (Some (length (mem st)))))\<rparr>))
                            (\<lambda>(c, st2). Returns (VPtr (Some (length (mem st))),
                                                 st2\<lparr>mem := (mem st2)[length (mem st) := Cell c]\<rparr>)))
                 | _ \<Rightarrow> Panic)))
     | VInterface None \<Rightarrow> Returns (VInterface None, st)
     | VInterface (Some originalValue) \<Rightarrow>
         thenDo (copyRecursive n U originalValue (zero_like (snd originalValue)) st)
           (\<lambda>(copyValue, st1). Returns (VInterface (Some (fst originalValue, copyValue)), st1))
     | VStruct vs \<Rightarrow>
         if t = TStruct ''time.Time'' then Returns (v, st)
         else
          (case hasDeepCopyMethod U t of
             Some method \<Rightarrow>
               (case callDeepCopy (mem st) v method of
                  (result, m1) \<Rightarrow> thenDo (setChecked U t result) (\<lambda>c. Returns (c, st\<lparr>mem := m1\<rparr>)))
           | None \<Rightarrow>
              (case (structFields U t, cpy) of
                 (Some fs, VStruct ds) \<Rightarrow>
                   if length vs = length fs \<and> length ds = length fs then
                     thenDo (copyFields n U fs vs ds st)
                       (\<lambda>(cs, st1). Returns (VStruct cs, st1))
                   else Panic
               | _ \<Rightarrow> Panic))
     | VSlice None \<Rightarrow> Returns (VSlice None, st)
     | VSlice (Some (a, len, cap)) \<Rightarrow>
        (case (elemType t, backingAt (mem st) a) of
           (Some et, Some es) \<Rightarrow>
             if len \<le> length es then
               thenDo (copyElems n U et (take len es)
                         (st\<lparr>mem := mem st @ [Backing (map zero_like (take len es))]\<rparr>))
                 (\<lambda>(cs, st2). Returns (VSlice (Some (length (mem st), len, cap)),
                                       st2\<lparr>mem := (mem st2)[length (mem st) := Backing cs]\<rparr>))
             else Panic
         | _ \<Rightarrow> Panic)
     | VMap None \<Rightarrow> Returns (VMap None, st)
     | VMap (Some a) \<Rightarrow>
        (case (keyType t, elemType t, mapAt (mem st) a) of
           (Some kt, Some et, Some entries) \<Rightarrow>
             thenDo (copyEntries n U kt et entries (st\<lparr>mem := mem st @ [MapObj []]\<rparr>))
               (\<lambda>(kvs, st2). Returns (VMap (Some (length (mem st))),
                                      st2\<lparr>mem := (mem st2)[length (mem st) := MapObj (setMapIndexes kvs)]\<rparr>))
         | _ \<Rightarrow> Panic)
     | VArray vs \<Rightarrow>
        (case (elemType t, cpy) of
           (Some et, VArray ds) \<Rightarrow>
             if length ds = length vs then
               thenDo (copyArray n U et vs ds st) (\<lambda>(cs, st1). Returns (VArray cs, st1))
             else Panic
         | _ \<Rightarrow> Panic)
     | VChan c \<Rightarrow> Returns (v, st)
     | VFunc f \<Rightarrow> Returns (v, st)
     | VUnsafePointer p \<Rightarrow> Returns (v, st)
     | VScalar s \<Rightarrow> Returns (v, st))"
| "copyFields n U (field # fs) (x # vs) (d # ds) st =
    (if PkgPath field \<noteq> [] then
       thenDo (copyFields n U fs vs ds st) (\<lambda>(cs, st1). Returns (d # cs, st1))
     else
       thenDo (copyRecursive n U (Type field, x) d st)
         (\<lambda>(c, st1). thenDo (copyFields n U fs vs ds st1) (\<lambda>(cs, st2). Returns (c # cs, st2))))"
| "copyFields n U [] vs ds st = Returns ([], st)"
| "copyFields n U fs [] ds st = Returns ([], st)"
| "copyFields n U fs vs [] st = Returns ([], st)"
| "copyElems n U et [] st = Returns ([], st)"
| "copyElems n U et (x # xs) st =
    thenDo (copyRecursive n U (et, x) (zero_like x) st)
      (\<lambda>(c, st1). thenDo (copyElems n U et xs st1) (\<lambda>(cs, st2). Returns (c # cs, st2)))"
| "copyEntries n U kt et [] st = Returns ([], st)"
| "copyEntries n U kt et (entry # entries) st =
    (if selfEqual (fst entry) then
       thenDo (copyRecursive n U (et, snd entry) (zero_like (snd entry)) st)
         (\<lambda>(copyValue, st1).
            thenDo (copyRecursive n U (kt, fst entry) (zero_like (fst entry)) st1)
              (\<lambda>(copyKey, st2).
                 thenDo (copyEntries n U kt et entries st2)
                   (\<lambda>(kvs, st3). Returns ((copyKey, copyValue) # kvs, st3))))
     else Panic)"
| "copyArray n U et (x # vs) (d # ds) st =
    thenDo (copyRecursive n U (et, x) d st)
      (\<lambda>(c, st1). thenDo (copyArray n U et vs ds st1) (\<lambda>(cs, st2). Returns (c # cs, st2)))"
| "copyArray n U et [] ds st = Returns ([], st)"
| "copyArray n U et vs [] st = Returns ([], st)"
  by pat_completeness auto

termination
  by (relation "inv_image (less_than <*lex*> less_than) (\<lambda>x. case x of
        Inl (Inl (n, U, original, cpy, st)) \<Rightarrow> (2 * n, 0)
      | Inl (Inr (n, U, fs, vs, ds, st)) \<Rightarrow> (2 * n + 1, length fs)
      | Inr (Inl (n, U, et, xs, st)) \<Rightarrow> (2 * n + 1, length xs)
      | Inr (Inr (Inl (n, U, kt, et, es, st))) \<Rightarrow> (2 * n + 1, length es)
      | Inr (Inr (Inr (n, U, et, vs, ds, st))) \<Rightarrow> (2 * n + 1, length vs))") auto

text \<open>
  \<open>fieldTypeInfo\<close>: the entry of \<open>typeInfo.FieldAnalysis\<close> for a field, nil when
  \<open>typeInfo\<close> or its \<open>FieldAnalysis\<close> is nil or has no such entry.
\<close>

definition fieldTypeInfo :: "TypeAnalysisResult list \<Rightarrow> nat option \<Rightarrow> string \<Rightarrow> nat option" where
  "fieldTypeInfo rs typeInfo fname =
     (case typeInfo of
        None \<Rightarrow> None
      | Some p \<Rightarrow>
          if p < length rs
          then (case FieldAnalysis (rs ! p) of None \<Rightarrow> None | Some m \<Rightarrow> map_of m fname)
          else None)"

text \<open>
  \<open>copyRecursiveWithCache\<close> is the same traversal with one more argument, the cached
  analysis of the value's type, which it hands down to struct fields only.
\<close>

function (sequential) copyRecursiveWithCache ::
  "nat \<Rightarrow> universe \<Rightarrow> TypeAnalysisResult list \<Rightarrow> rvalue \<Rightarrow> val \<Rightarrow> copy_state \<Rightarrow> nat option \<Rightarrow> (val \<times> copy_state) outcome"
  and copyFieldsWithCache ::
  "nat \<Rightarrow> universe \<Rightarrow> TypeAnalysisResult list \<Rightarrow> nat option \<Rightarrow> StructField list \<Rightarrow> val list \<Rightarrow> val list \<Rightarrow> copy_state
     \<Rightarrow> (val list \<times> copy_state) outcome"
  and copyElemsWithCache ::
  "nat \<Rightarrow> universe \<Rightarrow> TypeAnalysisResult list \<Rightarrow> rtype \<Rightarrow> val list \<Rightarrow> copy_state \<Rightarrow> (val list \<times> copy_state) outcome"
  and copyEntriesWithCache ::
  "nat \<Rightarrow> universe \<Rightarrow> TypeAnalysisResult list \<Rightarrow> rtype \<Rightarrow> rtype \<Rightarrow> (val \<times> val) list \<Rightarrow> copy_state
     \<Rightarrow> ((val \<times> val) list \<times> copy_state) outcome"
  and copyArrayWithCache ::
  "nat \<Rightarrow> universe \<Rightarrow> TypeAnalysisResult list \<Rightarrow> rtype \<Rightarrow> val list \<Rightarrow> val list \<Rightarrow> copy_state
     \<Rightarrow> (val list \<times> copy_state) outcome"
  where
  "copyRecursiveWithCache 0 U rs original cpy st typeInfo = OutOfFuel"
| "copyRecursiveWithCache (Suc n) U rs (t, v) cpy st typeInfo =
    (case v of
       VPtr None \<Rightarrow> Returns (VPtr None, st)
     | VPtr (Some ptr) \<Rightarrow>
        (case visited st ptr of
           Some seen \<Rightarrow> thenDo (setChecked U t seen) (\<lambda>c. Returns (c, st))
         | None \<Rightarrow>
            (case hasDeepCopyMethod U t of
               Some method \<Rightarrow>
                 (case callDeepCopy (mem st) v method of
                    (result, m1) \<Rightarrow>
                      if fst result \<noteq> t then wrapResult U t ptr result (st\<lparr>mem := m1\<rparr>)
                      else Returns (snd result,
                             st\<lparr>mem := m1, visited := (visited st)(ptr \<mapsto> (t, snd result))\<rparr>))
             | None \<Rightarrow>
                (case (elemType t, cellAt (mem st) ptr) of
                   (Some et, Some originalValue) \<Rightarrow>
                     (case hasDeepCopyMethod U et of
                        Some method \<Rightarrow>
                          (case callDeepCopy (mem st) originalValue method of
                             (result, m1) \<Rightarrow> wrapResult U t ptr result (st\<lparr>mem := m1\<rparr>))
                      | None \<Rightarrow>
                          thenDo (copyRecursiveWithCache n U rs (et, originalValue) (zero_like originalValue)
                                    (st\<lparr>mem := mem st @ [Cell (zero_like originalValue)],
                                        visited := (visited st)(ptr \<mapsto> (t, VPtr (Some (length (mem st)))))\<rparr>) None)
                            (\<lambda>(c, st2). Returns (VPtr (Some (length (mem st))),
                                                 st2\<lparr>mem := (mem st2)[length (mem st) := Cell c]\<rparr>)))
                 | _ \<Rightarrow> Panic)))
     | VInterface None \<Rightarrow> Returns (VInterface None, st)
     | VInterface (Some originalValue) \<Rightarrow>
         thenDo (copyRecursiveWithCache n U rs originalValue (zero_like (snd originalValue)) st None)
           (\<lambda>(copyValue, st1). Returns (VInterface (Some (fst originalValue, copyValue)), st1))
     | VStruct vs \<Rightarrow>
         if t = TStruct ''time.Time'' then Returns (v, st)
         else
          (case hasDeepCopyMethod U t of
             Some method \<Rightarrow>
               (case callDeepCopy (mem st) v method of
                  (result, m1) \<Rightarrow> thenDo (setChecked U t result) (\<lambda>c. Returns (c, st\<lparr>mem := m1\<rparr>)))
           | None \<Rightarrow>
              (case (structFields U t, cpy) of
                 (Some fs, VStruct ds) \<Rightarrow>
                   if length vs = length fs \<and> length ds = length fs then
                     thenDo (copyFieldsWithCache n U rs typeInfo fs vs ds st)
                       (\<lambda>(cs, st1). Returns (VStruct cs, st1))
                   else Panic
               | _ \<Rightarrow> Panic))
     | VSlice None \<Rightarrow> Returns (VSlice None, st)
     | VSlice (Some (a, len, cap)) \<Rightarrow>
        (case (elemType t, backingAt (mem st) a) of
           (Some et, Some es) \<Rightarrow>
             if len \<le> length es then
               thenDo (copyElemsWithCache n U rs et (take len es)
                         (st\<lparr>mem := mem st @ [Backing (map zero_like (take len es))]\<rparr>))
                 (\<lambda>(cs, st2). Returns (VSlice (Some (length (mem st), len, cap)),
                                       st2\<lparr>mem := (mem st2)[length (mem st) := Backing cs]\<rparr>))
             else Panic
         | _ \<Rightarrow> Panic)
     | VMap None \<Rightarrow> Returns (VMap None, st)
     | VMap (Some a) \<Rightarrow>
        (case (keyType t, elemType t, mapAt (mem st) a) of
           (Some kt, Some et, Some entries) \<Rightarrow>
             thenDo (copyEntriesWithCache n U rs kt et entries (st\<lparr>mem := mem st @ [MapObj []]\<rparr>))
               (\<lambda>(kvs, st2). Returns (VMap (Some (length (mem st))),
                                      st2\<lparr>mem := (mem st2)[length (mem st) := MapObj (setMapIndexes kvs)]\<rparr>))
         | _ \<Rightarrow> Panic)
     | VArray vs \<Rightarrow>
        (case (elemType t, cpy) of
           (Some et, VArray ds) \<Rightarrow>
             if length ds = length vs then
               thenDo (copyArrayWithCache n U rs et vs ds st) (\<lambda>(cs, st1). Returns (VArray cs, st1))
             else Panic
         | _ \<Rightarrow> Panic)
     | VChan c \<Rightarrow> Returns (v, st)
     | VFunc f \<Rightarrow> Returns (v, st)
     | VUnsafePointer p \<Rightarrow> Returns (v, st)
     | VScalar s \<Rightarrow> Returns (v, st))"
| "copyFieldsWithCache n U rs typeInfo (field # fs) (x # vs) (d # ds) st =
    (if PkgPath field \<noteq> [] then
       thenDo (copyFieldsWithCache n U rs typeInfo fs vs ds st) (\<lambda>(cs, st1). Returns (d # cs, st1))
     else
       thenDo (copyRecursiveWithCache n U rs (Type field, x) d st (fieldTypeInfo rs typeInfo (Name field)))
         (\<lambda>(c, st1). thenDo (copyFieldsWithCache n U rs typeInfo fs vs ds st1) (\<lambda>(cs, st2). Returns (c # cs, st2))))"
| "copyFieldsWithCache n U rs typeInfo [] vs ds st = Returns ([], st)"
| "copyFieldsWithCache n U rs typeInfo fs [] ds st = Returns ([], st)"
| "copyFieldsWithCache n U rs typeInfo fs vs [] st = Returns ([], st)"
| "copyElemsWithCache n U rs et [] st = Returns ([], st)"
| "copyElemsWithCache n U rs et (x # xs) st =
    thenDo (copyRecursiveWithCache n U rs (et, x) (zero_like x) st None)
      (\<lambda>(c, st1). thenDo (copyElemsWithCache n U rs et xs st1) (\<lambda>(cs, st2). Returns (c # cs, st2)))"
| "copyEntriesWithCache n U rs kt et [] st = Returns ([], st)"
| "copyEntriesWithCache n U rs kt et (entry # entries) st =
    (if selfEqual (fst entry) then
       thenDo (copyRecursiveWithCache n U rs (et, snd entry) (zero_like (snd entry)) st None)
         (\<lambda>(copyValue, st1).
            thenDo (copyRecursiveWithCache n U rs (kt, fst entry) (zero_like (fst entry)) st1 None)
              (\<lambda>(copyKey, st2).
                 thenDo (copyEntriesWithCache n U rs kt et entries st2)
                   (\<lambda>(kvs, st3). Returns ((copyKey, copyValue) # kvs, st3))))
     else Panic)"
| "copyArrayWithCache n U rs et (x # vs) (d # ds) st =
    thenDo (copyRecursiveWithCache n U rs (et, x) d st None)
      (\<lambda>(c, st1). thenDo (copyArrayWithCache n U rs et vs ds st1) (\<lambda>(cs, st2). Returns (c # cs, st2)))"
| "copyArrayWithCache n U rs et [] ds st = Returns ([], st)"
| "copyArrayWithCache n U rs et vs [] st = Returns ([], st)"
  by pat_completeness auto

termination
  by (relation "inv_image (less_than <*lex*> less_than) (\<lambda>x. case x of
        Inl (Inl (n, U, rs, original, cpy, st, typeInfo)) \<Rightarrow> (2 * n, 0)
      | Inl (Inr (n, U, rs, typeInfo, fs, vs, ds, st)) \<Rightarrow> (2 * n + 1, length fs)
      | Inr (Inl (n, U, rs, et, xs, st)) \<Rightarrow> (2 * n + 1, length xs)
      | Inr (Inr (Inl (n, U, rs, kt, et, es, st))) \<Rightarrow> (2 * n + 1, length es)
      | Inr (Inr (Inr (n, U, rs, et, vs, ds, st))) \<Rightarrow> (2 * n + 1, length vs))") auto

section \<open>Caches and entry points\<close>

text \<open>
  The process-wide state: the store of analysis results, the default manager with its
  per-type cache, the call-site cache, the cache of typed managers, and memory. A value
  of type \<open>interface{}\<close> is nil or a dynamic type with a value.
\<close>

record DeepCopyManager =
  analysisCache :: "rtype \<rightharpoonup> nat"

record BusinessCopyInfo =
  info_IsOnlyValues :: bool
  analysisResult :: "nat option"
  info_rtype :: "rtype option"

record TypedCopyManager =
  tm_analysis :: "nat option"
  tm_rtype :: "rtype option"
  tm_once :: bool

record world =
  analysisResults :: "TypeAnalysisResult list"
  defaultManager :: DeepCopyManager
  businessCopyCache :: "string \<rightharpoonup> BusinessCopyInfo"
  typedManagers :: "rtype \<rightharpoonup> TypedCopyManager"
  memory :: "obj list"

type_synonym any = "rvalue option"

text \<open>\<open>reflect.TypeOf(zero)\<close> for \<open>var zero T\<close>: nil when \<open>T\<close> is an interface type.\<close>

definition typeOfZero :: "rtype \<Rightarrow> rtype option" where
  "typeOfZero T = (if isInterface T then None else Some T)"

text \<open>The conversion of \<open>src\<close> of static type \<open>T\<close> to \<open>interface{}\<close>, as at
  \<open>reflect.ValueOf(src)\<close>: an interface value hands over its dynamic content.\<close>

definition toAny :: "rtype \<Rightarrow> val \<Rightarrow> any" where
  "toAny T src = (if isInterface T then (case src of VInterface x \<Rightarrow> x | _ \<Rightarrow> None)
                  else Some (T, src))"

text \<open>\<open>Value.Interface()\<close>.\<close>

definition Interface :: "rvalue \<Rightarrow> any" where
  "Interface v = (case snd v of VInterface x \<Rightarrow> x | _ \<Rightarrow> Some v)"

text \<open>The type assertion \<open>x.(T)\<close>, which panics when it fails.\<close>

definition typeAssert :: "universe \<Rightarrow> any \<Rightarrow> rtype \<Rightarrow> val outcome" where
  "typeAssert U x T =
     (case x of
        None \<Rightarrow> Panic
      | Some v \<Rightarrow>
          if isInterface T
          then (if implements U (fst v) T then Returns (VInterface (Some v)) else Panic)
          else (if fst v = T then Returns (snd v) else Panic))"

definition resultAt :: "TypeAnalysisResult list \<Rightarrow> nat \<Rightarrow> TypeAnalysisResult option" where
  "resultAt rs p = (if p < length rs then Some (rs ! p) else None)"

text \<open>\<open>DeepCopyManager.getOrAnalyzeType\<close>: the manager's cache, then a fresh analysis pass.\<close>

definition getOrAnalyzeType ::
  "nat \<Rightarrow> universe \<Rightarrow> rtype \<Rightarrow> DeepCopyManager \<Rightarrow> TypeAnalysisResult list
     \<Rightarrow> (nat \<times> DeepCopyManager \<times> TypeAnalysisResult list) option" where
  "getOrAnalyzeType fuel U t m rs =
     (case analysisCache m t of
        Some cached \<Rightarrow> Some (cached, m, rs)
      | None \<Rightarrow>
         (case analyzeTypeRecursive fuel (decls U) t \<lparr>results = rs, visitedT = Map.empty\<rparr> of
            None \<Rightarrow> None
          | Some (result, st) \<Rightarrow>
              Some (result, m\<lparr>analysisCache := (analysisCache m)(t \<mapsto> result)\<rparr>, results st)))"

definition getTypedManager :: "rtype \<Rightarrow> world \<Rightarrow> TypedCopyManager \<times> world" where
  "getTypedManager T w =
     (case typeOfZero T of
        None \<Rightarrow> (\<lparr>tm_analysis = None, tm_rtype = None, tm_once = False\<rparr>, w)
      | Some rt \<Rightarrow>
         (case typedManagers w rt of
            Some cached \<Rightarrow> (cached, w)
          | None \<Rightarrow>
             (let manager = \<lparr>tm_analysis = None, tm_rtype = Some rt, tm_once = False\<rparr>
              in (manager, w\<lparr>typedManagers := (typedManagers w)(rt \<mapsto> manager)\<rparr>))))"

text \<open>
  \<open>TypedCopyManager.getOrAnalyzeType\<close>. \<open>tm_once\<close> says whether \<open>once.Do\<close> has run. A
  manager with an \<open>rtype\<close> is the object stored in \<open>typedManagers\<close>, so its update is
  written there; the manager of the nil type is not stored.
\<close>

definition TypedCopyManager_getOrAnalyzeType ::
  "nat \<Rightarrow> universe \<Rightarrow> TypedCopyManager \<Rightarrow> world \<Rightarrow> (nat \<times> world) outcome" where
  "TypedCopyManager_getOrAnalyzeType fuel U tm w =
     (if tm_once tm then (case tm_analysis tm of Some a \<Rightarrow> Returns (a, w) | None \<Rightarrow> Panic)
      else
       (case tm_rtype tm of
          None \<Rightarrow>
            Returns (length (analysisResults w),
                     w\<lparr>analysisResults := analysisResults w @ [(newResult ''nil'')\<lparr>IsOnlyValues := True\<rparr>]\<rparr>)
        | Some rt \<Rightarrow>
           (case getOrAnalyzeType fuel U rt (defaultManager w) (analysisResults w) of
              None \<Rightarrow> OutOfFuel
            | Some (a, m', rs') \<Rightarrow>
                Returns (a, w\<lparr>analysisResults := rs', defaultManager := m',
                              typedManagers := (typedManagers w)(rt \<mapsto> tm\<lparr>tm_analysis := Some a, tm_once := True\<rparr>)\<rparr>))))"

text \<open>\<open>DeepCopyManager.CopyValue\<close>, on the manager, the result store and memory.\<close>

definition CopyValue ::
  "nat \<Rightarrow> universe \<Rightarrow> any \<Rightarrow> DeepCopyManager \<times> TypeAnalysisResult list \<times> obj list
     \<Rightarrow> (any \<times> DeepCopyManager \<times> TypeAnalysisResult list \<times> obj list) outcome" where
  "CopyValue fuel U src w =
     (case w of (m, rs, mm) \<Rightarrow>
      case src of
        None \<Rightarrow> Returns (None, m, rs, mm)
      | Some srcVal \<Rightarrow>
         (case getOrAnalyzeType fuel U (fst srcVal) m rs of
            None \<Rightarrow> OutOfFuel
          | Some (analysis, m', rs') \<Rightarrow>
             (case resultAt rs' analysis of
                None \<Rightarrow> Panic
              | Some a \<Rightarrow>
                 if IsOnlyValues a then Returns (src, m', rs', mm)
                 else
                  (case hasDeepCopyMethod U (fst srcVal) of
                     Some method \<Rightarrow>
                       (case callDeepCopy mm (snd srcVal) method of
                          (result, m1) \<Rightarrow> Returns (Interface result, m', rs', m1))
                   | None \<Rightarrow>
                       thenDo (copyRecursive fuel U srcVal (zero_like (snd srcVal))
                                 \<lparr>mem = mm, visited = Map.empty\<rparr>)
                         (\<lambda>(cpy, st). Returns (Some (fst srcVal, cpy), m', rs', mem st))))))"

definition Copy :: "nat \<Rightarrow> universe \<Rightarrow> rtype \<Rightarrow> val \<Rightarrow> world \<Rightarrow> (val \<times> world) outcome" where
  "Copy fuel U T src w =
     (case toAny T src of
        None \<Rightarrow> Returns (zero_like src, w)
      | Some srcVal \<Rightarrow>
         (case hasDeepCopyMethod U (fst srcVal) of
            Some method \<Rightarrow>
              (case callDeepCopy (memory w) (snd srcVal) method of
                 (result, m1) \<Rightarrow>
                   thenDo (typeAssert U (Interface result) T) (\<lambda>r. Returns (r, w\<lparr>memory := m1\<rparr>)))
          | None \<Rightarrow>
             (case getTypedManager T w of
                (manager, w1) \<Rightarrow>
                  thenDo (TypedCopyManager_getOrAnalyzeType fuel U manager w1)
                    (\<lambda>(analysis, w2).
                       case resultAt (analysisResults w2) analysis of
                         None \<Rightarrow> Panic
                       | Some a \<Rightarrow>
                          if IsOnlyValues a then Returns (src, w2)
                          else
                            thenDo (CopyValue fuel U (Some srcVal)
                                      (defaultManager w2, analysisResults w2, memory w2))
                              (\<lambda>(result, m', rs', mm').
                                 thenDo (typeAssert U result T)
                                   (\<lambda>r. Returns (r, w2\<lparr>analysisResults := rs', defaultManager := m',
                                                         memory := mm'\<rparr>)))))))"

definition initializeCopyInfo ::
  "nat \<Rightarrow> universe \<Rightarrow> BusinessCopyInfo \<Rightarrow> world \<Rightarrow> (BusinessCopyInfo \<times> world) outcome" where
  "initializeCopyInfo fuel U info w =
     (case info_rtype info of
        None \<Rightarrow> Returns (info\<lparr>info_IsOnlyValues := True\<rparr>, w)
      | Some rt \<Rightarrow>
         (case getOrAnalyzeType fuel U rt (defaultManager w) (analysisResults w) of
            None \<Rightarrow> OutOfFuel
          | Some (a, m', rs') \<Rightarrow>
             (case resultAt rs' a of
                None \<Rightarrow> Panic
              | Some r \<Rightarrow>
                  Returns (info\<lparr>analysisResult := Some a, info_IsOnlyValues := IsOnlyValues r\<rparr>,
                           w\<lparr>analysisResults := rs', defaultManager := m'\<rparr>))))"

definition getOrCreateBusinessCopyInfo ::
  "nat \<Rightarrow> universe \<Rightarrow> rtype \<Rightarrow> string \<Rightarrow> world \<Rightarrow> (BusinessCopyInfo \<times> world) outcome" where
  "getOrCreateBusinessCopyInfo fuel U T key w =
     (case businessCopyCache w key of
        Some cached \<Rightarrow> Returns (cached, w)
      | None \<Rightarrow>
          thenDo (initializeCopyInfo fuel U
                    \<lparr>info_IsOnlyValues = False, analysisResult = None, info_rtype = typeOfZero T\<rparr> w)
            (\<lambda>(copyInfo, w1).
               Returns (copyInfo, w1\<lparr>businessCopyCache := (businessCopyCache w1)(key \<mapsto> copyInfo)\<rparr>)))"

definition CopyWithKey ::
  "nat \<Rightarrow> universe \<Rightarrow> rtype \<Rightarrow> val \<Rightarrow> string \<Rightarrow> world \<Rightarrow> (val \<times> world) outcome" where
  "CopyWithKey fuel U T src key w =
     thenDo (getOrCreateBusinessCopyInfo fuel U T key w)
       (\<lambda>(copyInfo, w1).
          if info_IsOnlyValues copyInfo then Returns (src, w1)
          else
           (case toAny T src of
              None \<Rightarrow> Returns (zero_like src, w1)
            | Some srcVal \<Rightarrow>
               (case hasDeepCopyMethod U (fst srcVal) of
                  Some method \<Rightarrow>
                    (case callDeepCopy (memory w1) (snd srcVal) method of
                       (result, m1) \<Rightarrow>
                         thenDo (typeAssert U (Interface result) T) (\<lambda>r. Returns (r, w1\<lparr>memory := m1\<rparr>)))
                | None \<Rightarrow>
                    thenDo (copyRecursiveWithCache fuel U (analysisResults w1) srcVal
                              (zero_like (snd srcVal)) \<lparr>mem = memory w1, visited = Map.empty\<rparr>
                              (analysisResult copyInfo))
                      (\<lambda>(cpy, st).
                         thenDo (typeAssert U (Some (fst srcVal, cpy)) T)
                           (\<lambda>r. Returns (r, w1\<lparr>memory := mem st\<rparr>))))))"

section \<open>Sequences of calls and example programs\<close>

text \<open>A call of one of the entry points that use the process-wide caches, and a run of
  such calls in order on the world.\<close>

datatype call = CallCopy rtype val | CallCopyWithKey rtype val string | CallGetOrCreate rtype string

fun runCall :: "nat \<Rightarrow> universe \<Rightarrow> call \<Rightarrow> world \<Rightarrow> world outcome" where
  "runCall fuel U (CallCopy T src) w = thenDo (Copy fuel U T src w) (\<lambda>(r, w'). Returns w')"
| "runCall fuel U (CallCopyWithKey T src key) w =
     thenDo (CopyWithKey fuel U T src key w) (\<lambda>(r, w'). Returns w')"
| "runCall fuel U (CallGetOrCreate T key) w =
     thenDo (getOrCreateBusinessCopyInfo fuel U T key w) (\<lambda>(r, w'). Returns w')"

fun runCalls :: "nat \<Rightarrow> universe \<Rightarrow> call list \<Rightarrow> world \<Rightarrow> world outcome" where
  "runCalls fuel U [] w = Returns w"
| "runCalls fuel U (c # cs) w = thenDo (runCall fuel U c w) (runCalls fuel U cs)"

definition emptyWorld :: world where
  "emptyWorld = \<lparr>analysisResults = [], defaultManager = \<lparr>analysisCache = Map.empty\<rparr>,
     businessCopyCache = Map.empty, typedManagers = Map.empty, memory = []\<rparr>"

text \<open>The result object that the manager of the nil type creates.\<close>

definition nilResult :: TypeAnalysisResult where
  "nilResult = \<lparr>IsOnlyValues = True, ContainsPtr = False, ContainsSlice = False,
     ContainsMap = False, ContainsChan = False, ContainsFunc = False, ContainsIface = False,
     FieldAnalysis = None, TypeName = ''nil''\<rparr>"

text \<open>
  The README's \<open>User\<close>: three exported scalar fields and a value-receiver \<open>DeepCopy\<close> that
  replaces \<open>Password\<close> by \<open>"[REDACTED]"\<close>. The method is in the method set of \<open>*User\<close>
  too, where it is called on the struct that the receiver points to. On a nil receiver
  that call panics in Go; a method body is a total function here, and its value on a
  receiver that points to no struct is of no consequence below.
\<close>

definition userFields :: "StructField list" where
  "userFields = [\<lparr>Name = ''ID'', PkgPath = [], Type = TBasic IntK\<rparr>,
                 \<lparr>Name = ''Name'', PkgPath = [], Type = TBasic String\<rparr>,
                 \<lparr>Name = ''Password'', PkgPath = [], Type = TBasic String\<rparr>]"

definition userDeepCopy :: "obj list \<Rightarrow> val \<Rightarrow> rvalue \<times> obj list" where
  "userDeepCopy m u =
     (case u of
        VStruct [i, n, p] \<Rightarrow> ((TStruct ''User'', VStruct [i, n, VScalar (SString ''[REDACTED]'')]), [])
      | _ \<Rightarrow> ((TStruct ''User'', u), []))"

definition throughPointer ::
  "(obj list \<Rightarrow> val \<Rightarrow> rvalue \<times> obj list) \<Rightarrow> obj list \<Rightarrow> val \<Rightarrow> rvalue \<times> obj list" where
  "throughPointer body m v =
     (case v of
        VPtr (Some p) \<Rightarrow> (case cellAt m p of Some x \<Rightarrow> body m x | None \<Rightarrow> body m v)
      | _ \<Rightarrow> body m v)"

definition userUniverse :: universe where
  "userUniverse = \<lparr>decls = [(''User'', userFields)],
      methodByName_DeepCopy = (\<lambda>t.
          if t = TStruct ''User''
          then Some \<lparr>NumIn = 1, NumOut = 1, FuncValid = True, Func = userDeepCopy\<rparr>
          else if t = TPtr (TStruct ''User'')
          then Some \<lparr>NumIn = 1, NumOut = 1, FuncValid = True, Func = throughPointer userDeepCopy\<rparr>
          else None),
      implements = (\<lambda>x t. True)\<rparr>"

definition john :: val where
  "john = VStruct [VScalar (SInt 1), VScalar (SString ''john''), VScalar (SString ''secret123'')]"

definition johnRedacted :: val where
  "johnRedacted = VStruct [VScalar (SInt 1), VScalar (SString ''john''), VScalar (SString ''[REDACTED]'')]"

text \<open>
  The tests' \<open>CustomCopier\<close>: one exported \<open>int\<close> field and a value-receiver \<open>DeepCopy\<close>
  that doubles it, in the 64 bits of an \<open>int\<close>. The method is in the method set of
  \<open>*CustomCopier\<close> too.
\<close>

definition wrap64 :: "int \<Rightarrow> int" where
  "wrap64 i = (i + 2 ^ 63) mod 2 ^ 64 - 2 ^ 63"

definition customCopierDeepCopy :: "obj list \<Rightarrow> val \<Rightarrow> rvalue \<times> obj list" where
  "customCopierDeepCopy m c =
     (case c of
        VStruct [VScalar (SInt i)] \<Rightarrow>
          ((TStruct ''CustomCopier'', VStruct [VScalar (SInt (wrap64 (i * 2)))]), [])
      | _ \<Rightarrow> ((TStruct ''CustomCopier'', c), []))"

definition customCopierUniverse :: universe where
  "customCopierUniverse = \<lparr>decls = [(''CustomCopier'', [\<lparr>Name = ''Value'', PkgPath = [], Type = TBasic IntK\<rparr>])],
      methodByName_DeepCopy = (\<lambda>t.
          if t = TStruct ''CustomCopier''
          then Some \<lparr>NumIn = 1, NumOut = 1, FuncValid = True, Func = customCopierDeepCopy\<rparr>
          else if t = TPtr (TStruct ''CustomCopier'')
          then Some \<lparr>NumIn = 1, NumOut = 1, FuncValid = True,
                     Func = throughPointer customCopierDeepCopy\<rparr>
          else None),
      implements = (\<lambda>x t. True)\<rparr>"

text \<open>A program with the given struct declarations and no \<open>DeepCopy\<close> methods, in
  which every type implements every interface (as for \<open>interface{}\<close>).\<close>

definition plainUniverse :: "(string \<times> StructField list) list \<Rightarrow> universe" where
  "plainUniverse ds = \<lparr>decls = ds, methodByName_DeepCopy = (\<lambda>t. None), implements = (\<lambda>x t. True)\<rparr>"

text \<open>
  A later state of a copy extends an earlier one: memory has grown at its end, the objects
  that were there are as they were, and every entry of the table is still there.
\<close>

definition extends :: "copy_state \<Rightarrow> copy_state \<Rightarrow> bool" where
  "extends st st' \<longleftrightarrow> (\<exists>new. mem st' = mem st @ new) \<and> visited st \<subseteq>\<^sub>m visited st'"




text \<open>
  The tests' \<open>Unexported\<close>, shortened: an exported string and a non-exported slice of
  \<open>int\<close>, here \<open>{A: "A", cc: []int{1, 2, 3}}\<close> with the slice's array at address 0.
\<close>

definition unexportedUniverse :: universe where
  "unexportedUniverse = plainUniverse
     [(''Unexported'', [\<lparr>Name = ''A'', PkgPath = [], Type = TBasic String\<rparr>,
                        \<lparr>Name = ''cc'', PkgPath = ''deepcopy'', Type = TSlice (TBasic IntK)\<rparr>])]"

definition unexportedValue :: val where
  "unexportedValue = VStruct [VScalar (SString ''A''), VSlice (Some (0, 3, 3))]"

definition ints123 :: "obj list" where
  "ints123 = [Backing [VScalar (SInt 1), VScalar (SInt 2), VScalar (SInt 3)]]"

text \<open>
  For the analysis: in a well-formed pass every pointer in \<open>visited\<close> refers to an object
  of the store. \<open>frame st st'\<close> says that \<open>st'\<close> is a later state of the pass in which the
  objects of \<open>st\<close> are unchanged; \<open>frame_except p\<close> allows the object \<open>p\<close> to differ.
\<close>

definition vis_ok :: "analysis_state \<Rightarrow> bool" where
  "vis_ok st \<longleftrightarrow> (\<forall>t r. visitedT st t = Some r \<longrightarrow> r < length (results st))"

definition frame :: "analysis_state \<Rightarrow> analysis_state \<Rightarrow> bool" where
  "frame st st' \<longleftrightarrow> vis_ok st' \<and> visitedT st \<subseteq>\<^sub>m visitedT st'
     \<and> length (results st) \<le> length (results st')
     \<and> (\<forall>i<length (results st). results st' ! i = results st ! i)"

definition frame_except :: "nat \<Rightarrow> analysis_state \<Rightarrow> analysis_state \<Rightarrow> bool" where
  "frame_except p st st' \<longleftrightarrow> vis_ok st' \<and> visitedT st \<subseteq>\<^sub>m visitedT st'
     \<and> length (results st) \<le> length (results st')
     \<and> (\<forall>i<length (results st). i \<noteq> p \<longrightarrow> results st' ! i = results st ! i)"

text \<open>
  The type descriptors that an analysis of \<open>t\<close> can meet: \<open>t\<close>, the field types of the
  declared structs, and the types they are built from. One more than their number bounds
  the depth of the recursion.
\<close>

fun subtypes :: "rtype \<Rightarrow> rtype list" where
  "subtypes (TArray k e) = TArray k e # subtypes e"
| "subtypes (TChan e) = TChan e # subtypes e"
| "subtypes (TMap k e) = TMap k e # subtypes k @ subtypes e"
| "subtypes (TPtr e) = TPtr e # subtypes e"
| "subtypes (TSlice e) = TSlice e # subtypes e"
| "subtypes (TNamed n u) = TNamed n u # subtypes u"
| "subtypes t = [t]"

definition typeUniverse :: "(string \<times> StructField list) list \<Rightarrow> rtype \<Rightarrow> rtype list" where
  "typeUniverse D t = subtypes t @ concat (map (\<lambda>d. concat (map (\<lambda>f. subtypes (Type f)) (snd d))) D)"

definition analysisFuel :: "(string \<times> StructField list) list \<Rightarrow> rtype \<Rightarrow> nat" where
  "analysisFuel D t = Suc (length (typeUniverse D t))"

section \<open>Termination of the traversal\<close>

text \<open>
  The depth bound of \<open>copyRecursive\<close> is not in the source. The source's call terminates
  when, from some bound on, the model gives one and the same outcome, a value or a panic:
  \<open>terminates\<close>. It recurses forever when the model runs out of depth at every bound.
\<close>

definition settles :: "(nat \<Rightarrow> 'a outcome) \<Rightarrow> 'a outcome \<Rightarrow> bool" where
  "settles f out \<longleftrightarrow> out \<noteq> OutOfFuel \<and> (\<exists>n. \<forall>m\<ge>n. f m = out)"

definition terminates :: "(nat \<Rightarrow> 'a outcome) \<Rightarrow> bool" where
  "terminates f \<longleftrightarrow> (\<exists>out. settles f out)"

text \<open>
  \<open>m := map[string]interface{}{}; m["self"] = m\<close>: a map whose only value is the map
  itself, at address 0. No pointer lies on this cycle.
\<close>

definition selfMapType :: rtype where
  "selfMapType = TMap (TBasic String) (TInterface ''interface {}'')"

definition selfMap :: "obj list" where
  "selfMap = [MapObj [(VScalar (SString ''self''), VInterface (Some (selfMapType, VMap (Some 0))))]]"

text \<open>
  A cycle of the input passes through a pointer when the slices and maps can be ranked, by
  \<open>rk\<close> on their addresses, so that the values stored in a slice or map refer, other than
  through a pointer, only to slices and maps of lower rank. \<open>rankOf rk v\<close> is one more than
  the greatest rank of a slice or map that \<open>v\<close> holds directly (in a field, an array
  element or an interface, not behind a pointer), and 0 when there is none.
  \<open>closedVal N v\<close>: the pointers, slices and maps that \<open>v\<close> holds directly are among the
  first \<open>N\<close> objects. \<open>cyclesThroughPointers rk m\<close>: the memory \<open>m\<close> refers only to its own
  objects and is ranked by \<open>rk\<close>.
\<close>

fun rankOf :: "(nat \<Rightarrow> nat) \<Rightarrow> val \<Rightarrow> nat" where
  "rankOf rk (VSlice (Some (a, len, cap))) = Suc (rk a)"
| "rankOf rk (VMap (Some a)) = Suc (rk a)"
| "rankOf rk (VInterface (Some (t, x))) = rankOf rk x"
| "rankOf rk (VStruct vs) = foldr max (map (rankOf rk) vs) 0"
| "rankOf rk (VArray vs) = foldr max (map (rankOf rk) vs) 0"
| "rankOf rk v = 0"

fun closedVal :: "nat \<Rightarrow> val \<Rightarrow> bool" where
  "closedVal N (VPtr (Some p)) = (p < N)"
| "closedVal N (VSlice (Some (a, len, cap))) = (a < N)"
| "closedVal N (VMap (Some a)) = (a < N)"
| "closedVal N (VInterface (Some (t, x))) = closedVal N x"
| "closedVal N (VStruct vs) = list_all (closedVal N) vs"
| "closedVal N (VArray vs) = list_all (closedVal N) vs"
| "closedVal N v = True"

definition rankedObj :: "(nat \<Rightarrow> nat) \<Rightarrow> nat \<Rightarrow> nat \<Rightarrow> obj \<Rightarrow> bool" where
  "rankedObj rk N a ob =
     (case ob of
        Cell x \<Rightarrow> closedVal N x
      | Backing es \<Rightarrow> list_all (\<lambda>x. closedVal N x \<and> rankOf rk x \<le> rk a) es
      | MapObj kvs \<Rightarrow>
          list_all (\<lambda>kv. closedVal N (fst kv) \<and> closedVal N (snd kv)
                          \<and> rankOf rk (fst kv) \<le> rk a \<and> rankOf rk (snd kv) \<le> rk a) kvs)"

definition cyclesThroughPointers :: "(nat \<Rightarrow> nat) \<Rightarrow> obj list \<Rightarrow> bool" where
  "cyclesThroughPointers rk m = list_all (\<lambda>a. rankedObj rk (length m) a (m ! a)) [0..<length m]"

text \<open>
  During a copy of the input \<open>src\<close> the objects of \<open>src\<close> stay where they are, the copies
  come after them; \<open>unvisited\<close> counts the objects of \<open>src\<close> that are not yet in the table.
\<close>

definition source_intact :: "obj list \<Rightarrow> copy_state \<Rightarrow> bool" where
  "source_intact src st \<longleftrightarrow> (\<exists>new. mem st = src @ new)"

definition unvisited :: "obj list \<Rightarrow> copy_state \<Rightarrow> nat" where
  "unvisited src st = card ({..<length src} - dom (visited st))"

text \<open>
  \<open>type Tree struct { Kids []*Tree }\<close> and a tree that is its own child:
  \<open>t := &Tree{}; t.Kids = []*Tree{t}\<close>, the struct at address 0, the array of the slice at
  address 1. The cycle passes through the pointer in the slice.
\<close>

definition treeUniverse :: universe where
  "treeUniverse = plainUniverse
     [(''Tree'', [\<lparr>Name = ''Kids'', PkgPath = [], Type = TSlice (TPtr (TStruct ''Tree''))\<rparr>])]"

definition treeLoop :: "obj list" where
  "treeLoop = [Cell (VStruct [VSlice (Some (1, 1, 1))]), Backing [VPtr (Some 0)]]"

section \<open>Independence of the copy\<close>

text \<open>
  \<open>freshVal N v\<close>: every pointer, slice and map that \<open>v\<close> holds directly (in a field, an
  array element or an interface) is at an address from \<open>N\<close> on. With \<open>N\<close> the size of
  memory before a copy, these are the objects that the copy allocated. Channels, functions
  and unsafe pointers are not looked at: the copy shares them with the source.
  \<open>freshObj\<close> is the same for what an object holds.
\<close>

fun freshVal :: "nat \<Rightarrow> val \<Rightarrow> bool" where
  "freshVal N (VPtr (Some p)) = (N \<le> p)"
| "freshVal N (VSlice (Some (a, len, cap))) = (N \<le> a)"
| "freshVal N (VMap (Some a)) = (N \<le> a)"
| "freshVal N (VInterface (Some (t, x))) = freshVal N x"
| "freshVal N (VStruct vs) = list_all (freshVal N) vs"
| "freshVal N (VArray vs) = list_all (freshVal N) vs"
| "freshVal N v = True"

definition freshObj :: "nat \<Rightarrow> obj \<Rightarrow> bool" where
  "freshObj N ob =
     (case ob of
        Cell x \<Rightarrow> freshVal N x
      | Backing es \<Rightarrow> list_all (freshVal N) es
      | MapObj kvs \<Rightarrow> list_all (\<lambda>kv. freshVal N (fst kv) \<and> freshVal N (snd kv)) kvs)"

text \<open>
  \<open>time.Time\<close> values are assigned, not traversed. \<open>noTime t\<close>: \<open>time.Time\<close> is not a
  component of the type \<open>t\<close>; \<open>plainVal\<close>, \<open>plainObj\<close>: it is not a component of the dynamic
  type of an interface value held; \<open>plainDecls\<close>: nor of the type of a declared field.
\<close>

fun noTime :: "rtype \<Rightarrow> bool" where
  "noTime (TStruct n) = (n \<noteq> ''time.Time'')"
| "noTime (TArray k e) = noTime e"
| "noTime (TChan e) = noTime e"
| "noTime (TMap k e) = (noTime k \<and> noTime e)"
| "noTime (TPtr e) = noTime e"
| "noTime (TSlice e) = noTime e"
| "noTime (TNamed n u) = noTime u"
| "noTime t = True"

fun plainVal :: "val \<Rightarrow> bool" where
  "plainVal (VInterface (Some (t, x))) = (noTime t \<and> plainVal x)"
| "plainVal (VStruct vs) = list_all plainVal vs"
| "plainVal (VArray vs) = list_all plainVal vs"
| "plainVal v = True"

definition plainObj :: "obj \<Rightarrow> bool" where
  "plainObj ob =
     (case ob of
        Cell x \<Rightarrow> plainVal x
      | Backing es \<Rightarrow> list_all plainVal es
      | MapObj kvs \<Rightarrow> list_all (\<lambda>kv. plainVal (fst kv) \<and> plainVal (snd kv)) kvs)"

definition plainDecls :: "universe \<Rightarrow> bool" where
  "plainDecls U = list_all (\<lambda>d. list_all (\<lambda>f. noTime (Type f)) (snd d)) (decls U)"

text \<open>
  What holds of the state all along a copy of a memory of \<open>N\<close> objects: the table and the
  objects from \<open>N\<close> on hold fresh addresses only.
\<close>

definition copy_inv :: "nat \<Rightarrow> copy_state \<Rightarrow> bool" where
  "copy_inv N st \<longleftrightarrow> N \<le> length (mem st)
     \<and> (\<forall>p x. visited st p = Some x \<longrightarrow> freshVal N (snd x) \<and> plainVal (snd x))
     \<and> (\<forall>a<length (mem st). plainObj (mem st ! a) \<and> (N \<le> a \<longrightarrow> freshObj N (mem st ! a)))"

text \<open>The reference-like values: a pointer, a slice or a map that is not nil.\<close>

definition referenceLike :: "val \<Rightarrow> bool" where
  "referenceLike v = (case v of VPtr (Some p) \<Rightarrow> True | VSlice (Some s) \<Rightarrow> True
                               | VMap (Some a) \<Rightarrow> True | _ \<Rightarrow> False)"

text \<open>
  The types of the reference-like values, and what is asked of a manager's cache: an
  entry for such a type is a result that does not say \<open>IsOnlyValues\<close>. The cache of a new
  manager is empty.
\<close>

definition isRefType :: "rtype \<Rightarrow> bool" where
  "isRefType t = (case underlying t of TPtr e \<Rightarrow> True | TSlice e \<Rightarrow> True | TMap k e \<Rightarrow> True | _ \<Rightarrow> False)"

definition cacheSound :: "DeepCopyManager \<Rightarrow> TypeAnalysisResult list \<Rightarrow> bool" where
  "cacheSound m rs \<longleftrightarrow>
     (\<forall>t a. analysisCache m t = Some a \<longrightarrow> isRefType t \<longrightarrow> a < length rs \<and> \<not> IsOnlyValues (rs ! a))"

section \<open>Basic facts\<close>

text \<open>The continuation of \<open>thenDo\<close> is looked at only once the first outcome is known.\<close>

lemma thenDo_cong [cong]: "m = m' \<Longrightarrow> thenDo m f = thenDo m' f"
  by simp

lemma thenDo_Returns_iff: "thenDo m f = Returns y \<longleftrightarrow> (\<exists>x. m = Returns x \<and> f x = Returns y)"
  by (cases m) auto

lemma thenDo_OutOfFuel_iff:
  "thenDo m f = OutOfFuel \<longleftrightarrow> m = OutOfFuel \<or> (\<exists>x. m = Returns x \<and> f x = OutOfFuel)"
  by (cases m) auto

text \<open>Unfolding the entry points and their helpers on concrete inputs.\<close>

lemmas facade_defs =
  CopyValue_def Copy_def CopyWithKey_def getOrAnalyzeType_def resultAt_def
  getTypedManager_def typeOfZero_def isInterface_def TypedCopyManager_getOrAnalyzeType_def
  typeAssert_def Interface_def toAny_def getOrCreateBusinessCopyInfo_def initializeCopyInfo_def

lemmas analysis_defs =
  modify_def register_def structPrologue_def declaredFields_def mergeField_def newResult_def inheritArray_def inheritPtr_def
  inheritSlice_def inheritMap_def Let_def

lemmas copy_defs =
  hasDeepCopyMethod_def callDeepCopy_def elemType_def keyType_def structFields_def
  declaredFields_def cellAt_def backingAt_def mapAt_def setChecked_def assignable_def
  wrapResult_def setMapIndexes_def Let_def

section \<open>The call-site cache\<close>

lemma getOrCreate_hit:
  "businessCopyCache w key = Some e \<Longrightarrow> getOrCreateBusinessCopyInfo fuel U T key w = Returns (e, w)"
  by (simp add: getOrCreateBusinessCopyInfo_def)

lemma initializeCopyInfo_cache:
  "initializeCopyInfo fuel U info w = Returns (i, w') \<Longrightarrow> businessCopyCache w' = businessCopyCache w"
  by (auto simp: initializeCopyInfo_def split: option.splits)

lemma getOrCreate_keeps:
  "getOrCreateBusinessCopyInfo fuel U T key' w = Returns (e', w') \<Longrightarrow> businessCopyCache w key = Some e
     \<Longrightarrow> businessCopyCache w' key = Some e"
  by (auto simp: getOrCreateBusinessCopyInfo_def thenDo_Returns_iff split: option.splits
           dest!: initializeCopyInfo_cache)

lemma getOrCreate_stores:
  "getOrCreateBusinessCopyInfo fuel U T key w = Returns (e, w') \<Longrightarrow> businessCopyCache w' key = Some e"
  by (auto simp: getOrCreateBusinessCopyInfo_def thenDo_Returns_iff split: option.splits
           dest!: initializeCopyInfo_cache)

lemma TypedCopyManager_getOrAnalyzeType_cache:
  "TypedCopyManager_getOrAnalyzeType fuel U tm w = Returns (a, w') \<Longrightarrow>
     businessCopyCache w' = businessCopyCache w"
  by (auto simp: TypedCopyManager_getOrAnalyzeType_def split: option.splits if_splits)

lemma getTypedManager_cache:
  "getTypedManager T w = (tm, w') \<Longrightarrow> businessCopyCache w' = businessCopyCache w"
  by (auto simp: getTypedManager_def Let_def split: option.splits)

lemma Copy_cache:
  "Copy fuel U T src w = Returns (r, w') \<Longrightarrow> businessCopyCache w' = businessCopyCache w"
  by (auto simp: Copy_def thenDo_Returns_iff split: option.splits prod.splits if_splits
           dest!: TypedCopyManager_getOrAnalyzeType_cache getTypedManager_cache)

lemma CopyWithKey_keeps:
  assumes "CopyWithKey fuel U T src key' w = Returns (r, w')"
    and "businessCopyCache w key = Some e"
  shows "businessCopyCache w' key = Some e"
proof -
  from assms(1) obtain info w1 where
    g: "getOrCreateBusinessCopyInfo fuel U T key' w = Returns (info, w1)" and
    rest: "(if info_IsOnlyValues info then Returns (src, w1)
          else
           (case toAny T src of
              None \<Rightarrow> Returns (zero_like src, w1)
            | Some srcVal \<Rightarrow>
               (case hasDeepCopyMethod U (fst srcVal) of
                  Some method \<Rightarrow>
                    (case callDeepCopy (memory w1) (snd srcVal) method of
                       (result, m1) \<Rightarrow>
                         thenDo (typeAssert U (Interface result) T) (\<lambda>r. Returns (r, w1\<lparr>memory := m1\<rparr>)))
                | None \<Rightarrow>
                    thenDo (copyRecursiveWithCache fuel U (analysisResults w1) srcVal
                              (zero_like (snd srcVal)) \<lparr>mem = memory w1, visited = Map.empty\<rparr>
                              (analysisResult info))
                      (\<lambda>(cpy, st).
                         thenDo (typeAssert U (Some (fst srcVal, cpy)) T)
                           (\<lambda>r. Returns (r, w1\<lparr>memory := mem st\<rparr>)))))) = Returns (r, w')"
    by (auto simp: CopyWithKey_def thenDo_Returns_iff)
  have k: "businessCopyCache w1 key = Some e"
    using getOrCreate_keeps [OF g assms(2)] .
  have "businessCopyCache w' = businessCopyCache w1"
    using rest
    by (cases "info_IsOnlyValues info"; cases "toAny T src")
       (auto simp: thenDo_Returns_iff split: option.splits prod.splits)
  with k show ?thesis by simp
qed

lemma runCall_keeps:
  "runCall fuel U c w = Returns w' \<Longrightarrow> businessCopyCache w key = Some e
     \<Longrightarrow> businessCopyCache w' key = Some e"
  by (cases c) (auto simp: thenDo_Returns_iff dest: Copy_cache CopyWithKey_keeps getOrCreate_keeps)

lemma runCalls_keeps:
  "runCalls fuel U cs w = Returns w' \<Longrightarrow> businessCopyCache w key = Some e
     \<Longrightarrow> businessCopyCache w' key = Some e"
proof (induction cs arbitrary: w)
  case Nil
  then show ?case by simp
next
  case (Cons c cs)
  then show ?case
    by (auto simp: thenDo_Returns_iff dest: runCall_keeps)
qed

text \<open>
  C8. Once \<open>getOrCreateBusinessCopyInfo\<close> has created the entry for a key, then after any
  further calls of the entry points (with any keys and types), a call with that key and
  any type argument returns the same entry and leaves the world as it is: no analysis is
  run and nothing is stored.
\<close>

theorem callsite_entry_permanent:
  assumes "businessCopyCache w key = None"
    and "getOrCreateBusinessCopyInfo fuel U T key w = Returns (e, w1)"
    and "runCalls fuel' U calls w1 = Returns w2"
  shows "getOrCreateBusinessCopyInfo fuel'' U T' key w2 = Returns (e, w2)"
  using assms by (blast intro: getOrCreate_hit runCalls_keeps getOrCreate_stores)

theorem callsite_entry_permanent_witness:
  "businessCopyCache emptyWorld ''user.profile'' = None
   \<and> (\<exists>e w1 w2.
        getOrCreateBusinessCopyInfo 2 userUniverse (TStruct ''User'') ''user.profile'' emptyWorld = Returns (e, w1)
      \<and> runCalls 1 userUniverse [CallGetOrCreate (TBasic IntK) ''app.port''] w1 = Returns w2
      \<and> getOrCreateBusinessCopyInfo 0 userUniverse (TSlice (TBasic IntK)) ''user.profile'' w2 = Returns (e, w2)
      \<and> info_rtype e = Some (TStruct ''User''))"
proof -
  have n: "businessCopyCache emptyWorld ''user.profile'' = None"
    by (simp add: emptyWorld_def)
  have "\<exists>e w1. getOrCreateBusinessCopyInfo 2 userUniverse (TStruct ''User'') ''user.profile'' emptyWorld
            = Returns (e, w1)
          \<and> info_rtype e = Some (TStruct ''User'') \<and> businessCopyCache w1 ''app.port'' = None
          \<and> analysisCache (defaultManager w1) (TBasic IntK) = None"
    by (simp add: facade_defs analysis_defs emptyWorld_def userUniverse_def userFields_def eval_nat_numeral)
  then obtain e w1 where
    c: "getOrCreateBusinessCopyInfo 2 userUniverse (TStruct ''User'') ''user.profile'' emptyWorld = Returns (e, w1)"
    and t: "info_rtype e = Some (TStruct ''User'')"
    and k: "businessCopyCache w1 ''app.port'' = None"
    and a: "analysisCache (defaultManager w1) (TBasic IntK) = None"
    by blast
  have "\<exists>w2. runCalls 1 userUniverse [CallGetOrCreate (TBasic IntK) ''app.port''] w1 = Returns w2"
    using k a by (simp add: facade_defs analysis_defs)
  then obtain w2 where
    r: "runCalls 1 userUniverse [CallGetOrCreate (TBasic IntK) ''app.port''] w1 = Returns w2"
    by blast
  from callsite_entry_permanent [OF n c r] n c r t show ?thesis by blast
qed

section \<open>Interface-typed instantiation\<close>

text \<open>
  C10. When \<open>T\<close> is an interface type, \<open>reflect.TypeOf\<close> of its zero value is nil, the
  typed manager's analysis is a new result named \<open>"nil"\<close> with \<open>IsOnlyValues\<close> set, and
  \<open>Copy\<close> of a value whose dynamic type has no accepted \<open>DeepCopy\<close> method returns \<open>src\<close>
  itself, whatever the recursion bound: memory is the same and nothing is traversed.
\<close>

theorem Copy_interface_typed_returns_src:
  assumes "isInterface T"
    and "toAny T src = Some srcVal"
    and "hasDeepCopyMethod U (fst srcVal) = None"
  shows "typeOfZero T = None
     \<and> TypedCopyManager_getOrAnalyzeType fuel U (fst (getTypedManager T w)) w
          = Returns (length (analysisResults w), w\<lparr>analysisResults := analysisResults w @ [nilResult]\<rparr>)
     \<and> Copy fuel U T src w = Returns (src, w\<lparr>analysisResults := analysisResults w @ [nilResult]\<rparr>)"
  using assms
  by (simp add: Copy_def typeOfZero_def getTypedManager_def TypedCopyManager_getOrAnalyzeType_def
        resultAt_def nilResult_def newResult_def)

text \<open>\<open>Copy[any]\<close> of the slice \<open>[]int{1, 2, 3}\<close> of capacity 5 returns the very slice, on
  the source's backing array.\<close>

theorem Copy_interface_typed_returns_src_witness:
  "isInterface (TInterface ''interface {}'')
   \<and> toAny (TInterface ''interface {}'') (VInterface (Some (TSlice (TBasic IntK), VSlice (Some (0, 3, 5)))))
       = Some (TSlice (TBasic IntK), VSlice (Some (0, 3, 5)))
   \<and> hasDeepCopyMethod (plainUniverse []) (TSlice (TBasic IntK)) = None
   \<and> Copy 0 (plainUniverse []) (TInterface ''interface {}'')
         (VInterface (Some (TSlice (TBasic IntK), VSlice (Some (0, 3, 5)))))
         (emptyWorld\<lparr>memory := [Backing [VScalar (SInt 1), VScalar (SInt 2), VScalar (SInt 3)]]\<rparr>)
       = Returns (VInterface (Some (TSlice (TBasic IntK), VSlice (Some (0, 3, 5)))),
                  emptyWorld\<lparr>memory := [Backing [VScalar (SInt 1), VScalar (SInt 2), VScalar (SInt 3)]],
                             analysisResults := [nilResult]\<rparr>)"
proof -
  have i: "isInterface (TInterface ''interface {}'')"
    by (simp add: isInterface_def)
  have a: "toAny (TInterface ''interface {}'') (VInterface (Some (TSlice (TBasic IntK), VSlice (Some (0, 3, 5)))))
       = Some (TSlice (TBasic IntK), VSlice (Some (0, 3, 5)))"
    by (simp add: toAny_def isInterface_def)
  have h: "hasDeepCopyMethod (plainUniverse []) (fst (TSlice (TBasic IntK), VSlice (Some (0, 3, 5)))) = None"
    by (simp add: hasDeepCopyMethod_def plainUniverse_def)
  from Copy_interface_typed_returns_src [OF i a h, of 0
      "emptyWorld\<lparr>memory := [Backing [VScalar (SInt 1), VScalar (SInt 2), VScalar (SInt 3)]]\<rparr>"]
    i a h
  show ?thesis by (simp add: emptyWorld_def)
qed

section \<open>Overrides at the entry points\<close>

text \<open>
  C4. On \<open>User\<close>, whose \<open>DeepCopy\<close> is accepted by \<open>hasDeepCopyMethod\<close> and redacts the
  password, \<open>Copy\<close> returns the method's result, while \<open>CopyValue\<close> and \<open>CopyWithKey\<close>
  return the source with its password: they test \<open>IsOnlyValues\<close> before they look for
  the method.
\<close>

theorem override_skipped_by_CopyValue_and_CopyWithKey:
  "(case hasDeepCopyMethod userUniverse (TStruct ''User'') of
      Some method \<Rightarrow> fst (callDeepCopy [] john method) = (TStruct ''User'', johnRedacted)
    | None \<Rightarrow> False)
   \<and> (case Copy 2 userUniverse (TStruct ''User'') john emptyWorld of
        Returns (r, w) \<Rightarrow> r = johnRedacted | _ \<Rightarrow> False)
   \<and> (case CopyValue 2 userUniverse (Some (TStruct ''User'', john)) (\<lparr>analysisCache = Map.empty\<rparr>, [], []) of
        Returns (r, w) \<Rightarrow> r = Some (TStruct ''User'', john) | _ \<Rightarrow> False)
   \<and> (case CopyWithKey 2 userUniverse (TStruct ''User'') john ''user.profile'' emptyWorld of
        Returns (r, w) \<Rightarrow> r = john | _ \<Rightarrow> False)"
  by (simp add: facade_defs analysis_defs hasDeepCopyMethod_def callDeepCopy_def emptyWorld_def
        userUniverse_def userFields_def userDeepCopy_def john_def johnRedacted_def eval_nat_numeral)

text \<open>
  C5. On the tests' \<open>CustomCopier\<close> with \<open>Value = 42\<close> and a key never used before,
  \<open>Copy\<close> returns the doubled value and \<open>CopyWithKey\<close> returns the source.
\<close>

theorem CopyWithKey_differs_from_Copy:
  "(case Copy 2 customCopierUniverse (TStruct ''CustomCopier'') (VStruct [VScalar (SInt 42)]) emptyWorld of
        Returns (r, w) \<Rightarrow> r = VStruct [VScalar (SInt 84)] | _ \<Rightarrow> False)
   \<and> businessCopyCache emptyWorld ''custom'' = None
   \<and> (case CopyWithKey 2 customCopierUniverse (TStruct ''CustomCopier'') (VStruct [VScalar (SInt 42)])
              ''custom'' emptyWorld of
        Returns (r, w) \<Rightarrow> r = VStruct [VScalar (SInt 42)] | _ \<Rightarrow> False)"
  by (simp add: facade_defs analysis_defs hasDeepCopyMethod_def callDeepCopy_def emptyWorld_def
        customCopierUniverse_def customCopierDeepCopy_def wrap64_def eval_nat_numeral)

section \<open>Inversion of the recursive copy\<close>

lemma wrapResult_Returns:
  "wrapResult U t ptr result st = Returns (r, st') \<longleftrightarrow>
     assignable U (TPtr (fst result)) t \<and> r = VPtr (Some (length (mem st)))
     \<and> st' = st\<lparr>mem := mem st @ [Cell (snd result)], visited := (visited st)(ptr \<mapsto> (t, r))\<rparr>"
  by (auto simp: wrapResult_def Let_def setChecked_def thenDo_Returns_iff)

lemma copyRecursive_ptrE:
  assumes "copyRecursive (Suc n) U (t, VPtr (Some ptr)) cpy st = Returns (r, st')"
  obtains
    (Seen) seen where "visited st ptr = Some seen" "setChecked U t seen = Returns r" "st' = st"
  | (Override) dc result new where "visited st ptr = None" "hasDeepCopyMethod U t = Some dc"
      "Func dc (mem st) (VPtr (Some ptr)) = (result, new)" "fst result = t" "r = snd result"
      "st' = st\<lparr>mem := mem st @ new, visited := (visited st)(ptr \<mapsto> (t, snd result))\<rparr>"
  | (OverrideWrap) dc result new where "visited st ptr = None" "hasDeepCopyMethod U t = Some dc"
      "Func dc (mem st) (VPtr (Some ptr)) = (result, new)" "fst result \<noteq> t"
      "wrapResult U t ptr result (st\<lparr>mem := mem st @ new\<rparr>) = Returns (r, st')"
  | (ElemOverride) et ov dc result new where "visited st ptr = None" "hasDeepCopyMethod U t = None"
      "elemType t = Some et" "cellAt (mem st) ptr = Some ov" "hasDeepCopyMethod U et = Some dc"
      "Func dc (mem st) ov = (result, new)"
      "wrapResult U t ptr result (st\<lparr>mem := mem st @ new\<rparr>) = Returns (r, st')"
  | (Default) et ov c st2 where "visited st ptr = None" "hasDeepCopyMethod U t = None"
      "elemType t = Some et" "cellAt (mem st) ptr = Some ov" "hasDeepCopyMethod U et = None"
      "copyRecursive n U (et, ov) (zero_like ov)
         (st\<lparr>mem := mem st @ [Cell (zero_like ov)],
             visited := (visited st)(ptr \<mapsto> (t, VPtr (Some (length (mem st)))))\<rparr>) = Returns (c, st2)"
      "r = VPtr (Some (length (mem st)))"
      "st' = st2\<lparr>mem := (mem st2)[length (mem st) := Cell c]\<rparr>"
proof (cases "visited st ptr")
  case (Some seen)
  with assms have "setChecked U t seen = Returns r" "st' = st"
    by (auto simp: thenDo_Returns_iff)
  with Some show ?thesis by (rule Seen)
next
  case None
  note vis = None
  show ?thesis
  proof (cases "hasDeepCopyMethod U t")
    case (Some dc)
    obtain result new where f: "Func dc (mem st) (VPtr (Some ptr)) = (result, new)"
      by (cases "Func dc (mem st) (VPtr (Some ptr))")
    show ?thesis
    proof (cases "fst result = t")
      case True
      with assms vis Some f have "r = snd result"
        "st' = st\<lparr>mem := mem st @ new, visited := (visited st)(ptr \<mapsto> (t, snd result))\<rparr>"
        by (auto simp: callDeepCopy_def)
      with vis Some f True show ?thesis by (rule Override)
    next
      case False
      with assms vis Some f have "wrapResult U t ptr result (st\<lparr>mem := mem st @ new\<rparr>) = Returns (r, st')"
        by (auto simp: callDeepCopy_def)
      with vis Some f False show ?thesis by (rule OverrideWrap)
    qed
  next
    case None
    note hm = None
    from assms vis hm obtain et ov where et: "elemType t = Some et" and ov: "cellAt (mem st) ptr = Some ov"
      by (auto split: option.splits)
    show ?thesis
    proof (cases "hasDeepCopyMethod U et")
      case (Some dc)
      obtain result new where f: "Func dc (mem st) ov = (result, new)"
        by (cases "Func dc (mem st) ov")
      with assms vis hm et ov Some
      have "wrapResult U t ptr result (st\<lparr>mem := mem st @ new\<rparr>) = Returns (r, st')"
        by (auto simp: callDeepCopy_def)
      with vis hm et ov Some f show ?thesis by (rule ElemOverride)
    next
      case None
      with assms vis hm et ov obtain c st2 where
        "copyRecursive n U (et, ov) (zero_like ov)
           (st\<lparr>mem := mem st @ [Cell (zero_like ov)],
               visited := (visited st)(ptr \<mapsto> (t, VPtr (Some (length (mem st)))))\<rparr>) = Returns (c, st2)"
        "r = VPtr (Some (length (mem st)))"
        "st' = st2\<lparr>mem := (mem st2)[length (mem st) := Cell c]\<rparr>"
        by (auto simp: thenDo_Returns_iff)
      with vis hm et ov None show ?thesis by (rule Default)
    qed
  qed
qed

lemma copyRecursive_sliceE:
  assumes "copyRecursive (Suc n) U (t, VSlice (Some (a, len, cap))) cpy st = Returns (r, st')"
  obtains et es cs st2 where "elemType t = Some et" "backingAt (mem st) a = Some es" "len \<le> length es"
    "copyElems n U et (take len es) (st\<lparr>mem := mem st @ [Backing (map zero_like (take len es))]\<rparr>)
       = Returns (cs, st2)"
    "r = VSlice (Some (length (mem st), len, cap))"
    "st' = st2\<lparr>mem := (mem st2)[length (mem st) := Backing cs]\<rparr>"
  using assms by (auto simp: thenDo_Returns_iff split: option.splits if_splits)

lemma copyRecursive_mapE:
  assumes "copyRecursive (Suc n) U (t, VMap (Some a)) cpy st = Returns (r, st')"
  obtains kt et entries kvs st2 where "keyType t = Some kt" "elemType t = Some et"
    "mapAt (mem st) a = Some entries"
    "copyEntries n U kt et entries (st\<lparr>mem := mem st @ [MapObj []]\<rparr>) = Returns (kvs, st2)"
    "r = VMap (Some (length (mem st)))"
    "st' = st2\<lparr>mem := (mem st2)[length (mem st) := MapObj (setMapIndexes kvs)]\<rparr>"
  using assms by (auto simp: thenDo_Returns_iff split: option.splits if_splits)

lemma copyRecursive_interfaceE:
  assumes "copyRecursive (Suc n) U (t, VInterface (Some originalValue)) cpy st = Returns (r, st')"
  obtains copyValue where
    "copyRecursive n U originalValue (zero_like (snd originalValue)) st = Returns (copyValue, st')"
    "r = VInterface (Some (fst originalValue, copyValue))"
  using assms by (auto simp: thenDo_Returns_iff)

lemma copyRecursive_structE:
  assumes "copyRecursive (Suc n) U (t, VStruct vs) cpy st = Returns (r, st')"
  obtains
    (Time) "t = TStruct ''time.Time''" "r = VStruct vs" "st' = st"
  | (Override) dc result new where "t \<noteq> TStruct ''time.Time''" "hasDeepCopyMethod U t = Some dc"
      "Func dc (mem st) (VStruct vs) = (result, new)" "setChecked U t result = Returns r"
      "st' = st\<lparr>mem := mem st @ new\<rparr>"
  | (Fields) fs ds cs where "t \<noteq> TStruct ''time.Time''" "hasDeepCopyMethod U t = None"
      "structFields U t = Some fs" "cpy = VStruct ds" "length vs = length fs" "length ds = length fs"
      "copyFields n U fs vs ds st = Returns (cs, st')" "r = VStruct cs"
proof (cases "t = TStruct ''time.Time''")
  case True
  with assms have "r = VStruct vs" "st' = st" by auto
  with True show ?thesis by (rule Time)
next
  case False
  note nt = False
  show ?thesis
  proof (cases "hasDeepCopyMethod U t")
    case (Some dc)
    obtain result new where f: "Func dc (mem st) (VStruct vs) = (result, new)"
      by (cases "Func dc (mem st) (VStruct vs)")
    with assms nt Some have "setChecked U t result = Returns r" "st' = st\<lparr>mem := mem st @ new\<rparr>"
      by (auto simp: callDeepCopy_def thenDo_Returns_iff)
    with nt Some f show ?thesis by (rule Override)
  next
    case None
    with assms nt obtain fs ds cs where
      "structFields U t = Some fs" "cpy = VStruct ds" "length vs = length fs" "length ds = length fs"
      "copyFields n U fs vs ds st = Returns (cs, st')" "r = VStruct cs"
      by (auto simp: thenDo_Returns_iff split: option.splits val.splits if_splits)
    with nt None show ?thesis by (rule Fields)
  qed
qed

lemma copyRecursive_arrayE:
  assumes "copyRecursive (Suc n) U (t, VArray vs) cpy st = Returns (r, st')"
  obtains et ds cs where "elemType t = Some et" "cpy = VArray ds" "length ds = length vs"
    "copyArray n U et vs ds st = Returns (cs, st')" "r = VArray cs"
  using assms by (auto simp: thenDo_Returns_iff split: option.splits val.splits if_splits)

lemma copyRecursive_leaf:
  "copyRecursive (Suc n) U (t, VPtr None) cpy st = Returns (VPtr None, st)"
  "copyRecursive (Suc n) U (t, VSlice None) cpy st = Returns (VSlice None, st)"
  "copyRecursive (Suc n) U (t, VMap None) cpy st = Returns (VMap None, st)"
  "copyRecursive (Suc n) U (t, VInterface None) cpy st = Returns (VInterface None, st)"
  "copyRecursive (Suc n) U (t, VScalar s) cpy st = Returns (VScalar s, st)"
  "copyRecursive (Suc n) U (t, VChan c) cpy st = Returns (VChan c, st)"
  "copyRecursive (Suc n) U (t, VFunc f) cpy st = Returns (VFunc f, st)"
  "copyRecursive (Suc n) U (t, VUnsafePointer p) cpy st = Returns (VUnsafePointer p, st)"
  by simp_all


lemma extends_refl [simp]: "extends st st"
  by (simp add: extends_def)

lemma extends_trans: "extends a b \<Longrightarrow> extends b c \<Longrightarrow> extends a c"
  by (auto simp: extends_def intro: map_le_trans)

lemma extends_alloc:
  "visited st p = None \<Longrightarrow> extends st (st\<lparr>mem := mem st @ new, visited := (visited st)(p \<mapsto> x)\<rparr>)"
  by (auto simp: extends_def map_le_def)

lemma extends_mem: "extends st (st\<lparr>mem := mem st @ new\<rparr>)"
  by (auto simp: extends_def)

lemma extends_update:
  "extends st st2 \<Longrightarrow> length (mem st) \<le> k \<Longrightarrow> extends st (st2\<lparr>mem := (mem st2)[k := x]\<rparr>)"
  by (auto simp: extends_def list_update_append)

lemma extends_length: "extends st st' \<Longrightarrow> length (mem st) \<le> length (mem st')"
  by (auto simp: extends_def)

lemma extends_nth: "extends st st' \<Longrightarrow> i < length (mem st) \<Longrightarrow> mem st' ! i = mem st ! i"
  by (auto simp: extends_def nth_append)


lemma copyFields_extends:
  assumes IH: "\<And>original cpy st r st'. copyRecursive n U original cpy st = Returns (r, st') \<Longrightarrow> extends st st'"
  shows "copyFields n U fs vs ds st = Returns (rs, st') \<Longrightarrow> extends st st'"
proof (induction fs arbitrary: vs ds st rs)
  case Nil
  then show ?case by simp
next
  case (Cons field fs)
  show ?case
  proof (cases vs)
    case Nil
    with Cons.prems show ?thesis by simp
  next
    case vs: (Cons x vs')
    show ?thesis
    proof (cases ds)
      case Nil
      with Cons.prems vs show ?thesis by simp
    next
      case ds: (Cons d ds')
      from Cons.prems show ?thesis
        unfolding vs ds
        by (auto simp: thenDo_Returns_iff split: if_splits dest: Cons.IH IH intro: extends_trans)
    qed
  qed
qed

lemma copyElems_extends:
  assumes IH: "\<And>original cpy st r st'. copyRecursive n U original cpy st = Returns (r, st') \<Longrightarrow> extends st st'"
  shows "copyElems n U et xs st = Returns (rs, st') \<Longrightarrow> extends st st'"
proof (induction xs arbitrary: st rs)
  case Nil
  then show ?case by simp
next
  case (Cons x xs)
  then show ?case
    by (auto simp: thenDo_Returns_iff dest: IH intro: extends_trans)
qed

lemma copyEntries_extends:
  assumes IH: "\<And>original cpy st r st'. copyRecursive n U original cpy st = Returns (r, st') \<Longrightarrow> extends st st'"
  shows "copyEntries n U kt et es st = Returns (kvs, st') \<Longrightarrow> extends st st'"
proof (induction es arbitrary: st kvs)
  case Nil
  then show ?case by simp
next
  case (Cons e es)
  then show ?case
    by (auto simp: thenDo_Returns_iff split: if_splits dest!: IH intro: extends_trans)
qed

lemma copyArray_extends:
  assumes IH: "\<And>original cpy st r st'. copyRecursive n U original cpy st = Returns (r, st') \<Longrightarrow> extends st st'"
  shows "copyArray n U et vs ds st = Returns (rs, st') \<Longrightarrow> extends st st'"
proof (induction vs arbitrary: ds st rs)
  case Nil
  then show ?case by simp
next
  case (Cons x vs)
  then show ?case
    by (cases ds) (auto simp: thenDo_Returns_iff dest: IH intro: extends_trans)
qed

lemma copyRecursive_extends:
  "copyRecursive n U original cpy st = Returns (r, st') \<Longrightarrow> extends st st'"
proof (induction n arbitrary: original cpy st r st')
  case 0
  then show ?case by simp
next
  case (Suc n)
  obtain t v where o: "original = (t, v)" by (cases original)
  note run = Suc.prems [unfolded o]
  show ?case
  proof (cases v)
    case (VPtr p)
    show ?thesis
    proof (cases p)
      case None
      with run VPtr show ?thesis by simp
    next
      case (Some ptr)
      from run [unfolded VPtr Some] show ?thesis
      proof (cases rule: copyRecursive_ptrE)
        case (Seen seen)
        then show ?thesis by simp
      next
        case (Override dc result new)
        then show ?thesis by (simp add: extends_alloc)
      next
        case (OverrideWrap dc result new)
        then show ?thesis
          by (auto simp: wrapResult_Returns extends_def map_le_def)
      next
        case (ElemOverride et ov dc result new)
        then show ?thesis
          by (auto simp: wrapResult_Returns extends_def map_le_def)
      next
        case (Default et ov c st2)
        from Suc.IH [OF Default(6)] Default(1) have "extends st st2"
          by (auto intro: extends_trans [OF extends_alloc])
        then show ?thesis
          unfolding Default(8) by (rule extends_update) simp
      qed
    qed
  next
    case (VSlice s)
    show ?thesis
    proof (cases s)
      case None
      with run VSlice show ?thesis by simp
    next
      case (Some x)
      obtain a len cap where x: "x = (a, len, cap)" by (cases x)
      from run [unfolded VSlice Some x] show ?thesis
      proof (cases rule: copyRecursive_sliceE)
        case (1 et es cs st2)
        have "extends (st\<lparr>mem := mem st @ [Backing (map zero_like (take len es))]\<rparr>) st2"
          by (rule copyElems_extends [rotated, OF 1(4)]) (rule Suc.IH)
        then have "extends st st2"
          by (rule extends_trans [OF extends_mem])
        then show ?thesis unfolding 1(6) by (rule extends_update) simp
      qed
    qed
  next
    case (VMap m)
    show ?thesis
    proof (cases m)
      case None
      with run VMap show ?thesis by simp
    next
      case (Some a)
      from run [unfolded VMap Some] show ?thesis
      proof (cases rule: copyRecursive_mapE)
        case (1 kt et entries kvs st2)
        have "extends (st\<lparr>mem := mem st @ [MapObj []]\<rparr>) st2"
          by (rule copyEntries_extends [rotated, OF 1(4)]) (rule Suc.IH)
        then have "extends st st2"
          by (rule extends_trans [OF extends_mem])
        then show ?thesis unfolding 1(6) by (rule extends_update) simp
      qed
    qed
  next
    case (VInterface i)
    show ?thesis
    proof (cases i)
      case None
      with run VInterface show ?thesis by simp
    next
      case (Some ov)
      from run [unfolded VInterface Some] show ?thesis
        by (cases rule: copyRecursive_interfaceE) (rule Suc.IH)
    qed
  next
    case (VStruct vs)
    from run [unfolded VStruct] show ?thesis
    proof (cases rule: copyRecursive_structE)
      case Time
      then show ?thesis by simp
    next
      case (Override dc result new)
      then show ?thesis by (simp add: extends_mem)
    next
      case (Fields fs ds cs)
      show ?thesis
        by (rule copyFields_extends [rotated, OF Fields(7)]) (rule Suc.IH)
    qed
  next
    case (VArray vs)
    from run [unfolded VArray] show ?thesis
    proof (cases rule: copyRecursive_arrayE)
      case (1 et ds cs)
      from copyArray_extends [OF Suc.IH 1(4)] show ?thesis .
    qed
  qed (use run in auto)
qed

section \<open>The visitation table\<close>







section \<open>Struct fields and nil values\<close>

lemma copyElems_length:
  "copyElems n U et xs st = Returns (cs, st') \<Longrightarrow> length cs = length xs"
  by (induction xs arbitrary: st cs) (auto simp: thenDo_Returns_iff)

lemma copyFields_result:
  "copyFields n U fs vs ds st = Returns (cs, st') \<Longrightarrow> length vs = length fs \<Longrightarrow> length ds = length fs \<Longrightarrow>
     length cs = length fs \<and> (\<forall>i<length fs. PkgPath (fs ! i) \<noteq> [] \<longrightarrow> cs ! i = ds ! i)"
proof (induction fs arbitrary: vs ds st cs)
  case Nil
  then show ?case by simp
next
  case (Cons field fs)
  from Cons.prems(2,3) obtain x vs' d ds' where vs: "vs = x # vs'" and ds: "ds = d # ds'"
    by (cases vs; cases ds) auto
  show ?case
  proof (cases "PkgPath field \<noteq> []")
    case True
    with Cons.prems(1) obtain cs' where r: "copyFields n U fs vs' ds' st = Returns (cs', st')" and cs: "cs = d # cs'"
      unfolding vs ds by (auto simp: thenDo_Returns_iff)
    from Cons.IH [OF r] Cons.prems(2,3) have
      "length cs' = length fs \<and> (\<forall>i<length fs. PkgPath (fs ! i) \<noteq> [] \<longrightarrow> cs' ! i = ds' ! i)"
      by (simp add: vs ds)
    then show ?thesis
      by (auto simp: cs ds nth_Cons split: nat.splits)
  next
    case False
    with Cons.prems(1) obtain c st1 cs' where r: "copyFields n U fs vs' ds' st1 = Returns (cs', st')" and cs: "cs = c # cs'"
      unfolding vs ds by (auto simp: thenDo_Returns_iff)
    from Cons.IH [OF r] Cons.prems(2,3) have
      "length cs' = length fs \<and> (\<forall>i<length fs. PkgPath (fs ! i) \<noteq> [] \<longrightarrow> cs' ! i = ds' ! i)"
      by (simp add: vs ds)
    with False show ?thesis
      by (auto simp: cs ds nth_Cons split: nat.splits)
  qed
qed

text \<open>
  C6. When a struct is copied by the default traversal (it is not \<open>time.Time\<close> and has no
  accepted \<open>DeepCopy\<close>), the destination's fields with a non-empty \<open>PkgPath\<close> are what they
  were before the call; for the zero destination that every caller passes, they are the
  zero value of the source's field.
\<close>

theorem unexported_fields_left_untouched:
  assumes "copyRecursive n U (t, VStruct vs) cpy st = Returns (r, st')"
    and "t \<noteq> TStruct ''time.Time''" and "hasDeepCopyMethod U t = None"
  shows "\<exists>fs ds cs. structFields U t = Some fs \<and> cpy = VStruct ds \<and> r = VStruct cs
           \<and> length cs = length fs
           \<and> (\<forall>i<length fs. PkgPath (fs ! i) \<noteq> [] \<longrightarrow>
                 cs ! i = ds ! i \<and> (cpy = zero_like (VStruct vs) \<longrightarrow> cs ! i = zero_like (vs ! i)))"
proof (cases n)
  case 0
  with assms show ?thesis by simp
next
  case (Suc k)
  from assms(1) [unfolded Suc] show ?thesis
  proof (cases rule: copyRecursive_structE)
    case Time
    with assms(2) show ?thesis by simp
  next
    case (Override dc result new)
    with assms(3) show ?thesis by simp
  next
    case (Fields fs ds cs)
    from copyFields_result [OF Fields(7,5,6)] Fields show ?thesis
      by auto
  qed
qed

text \<open>The spec's scenario: the non-exported field holds a non-nil slice and the copy's
  field is the nil slice. \<open>CopyValue\<close> reaches the traversal because the analysis of a
  struct with a non-exported field is not value-only.\<close>

theorem unexported_fields_left_untouched_witness:
  "copyRecursive 2 unexportedUniverse (TStruct ''Unexported'', unexportedValue) (zero_like unexportedValue)
       \<lparr>mem = ints123, visited = Map.empty\<rparr>
     = Returns (VStruct [VScalar (SString ''A''), VSlice None], \<lparr>mem = ints123, visited = Map.empty\<rparr>)
   \<and> PkgPath (the (structFields unexportedUniverse (TStruct ''Unexported'')) ! 1) \<noteq> []
   \<and> unexportedValue = VStruct [VScalar (SString ''A''), VSlice (Some (0, 3, 3))]
   \<and> (\<exists>m rs. CopyValue 2 unexportedUniverse (Some (TStruct ''Unexported'', unexportedValue))
                 (\<lparr>analysisCache = Map.empty\<rparr>, [], ints123)
        = Returns (Some (TStruct ''Unexported'', VStruct [VScalar (SString ''A''), VSlice None]), m, rs, ints123))"
proof -
  have run: "copyRecursive 2 unexportedUniverse (TStruct ''Unexported'', VStruct [VScalar (SString ''A''), VSlice (Some (0, 3, 3))])
       (zero_like unexportedValue) \<lparr>mem = ints123, visited = Map.empty\<rparr>
     = Returns (VStruct [VScalar (SString ''A''), VSlice None], \<lparr>mem = ints123, visited = Map.empty\<rparr>)"
    by (simp add: unexportedUniverse_def plainUniverse_def unexportedValue_def ints123_def copy_defs
          eval_nat_numeral)
  have nt: "TStruct ''Unexported'' \<noteq> TStruct ''time.Time''"
    by simp
  have nm: "hasDeepCopyMethod unexportedUniverse (TStruct ''Unexported'') = None"
    by (simp add: unexportedUniverse_def plainUniverse_def hasDeepCopyMethod_def)
  have cv: "\<exists>m rs. CopyValue 2 unexportedUniverse (Some (TStruct ''Unexported'', unexportedValue))
                 (\<lparr>analysisCache = Map.empty\<rparr>, [], ints123)
        = Returns (Some (TStruct ''Unexported'', VStruct [VScalar (SString ''A''), VSlice None]), m, rs, ints123)"
    by (simp add: unexportedUniverse_def plainUniverse_def unexportedValue_def ints123_def copy_defs
          facade_defs analysis_defs eval_nat_numeral)
  from unexported_fields_left_untouched [OF run nt nm] run cv show ?thesis
    by (simp add: unexportedUniverse_def plainUniverse_def structFields_def declaredFields_def
          unexportedValue_def)
qed

text \<open>
  C3. A nil pointer, slice, map or interface is copied to nil, in any state and with any
  destination. An empty non-nil slice is copied to a slice on a fresh, empty backing
  array, with the source's capacity; an empty non-nil map to a fresh, empty map. Every
  non-nil slice that is copied yields a non-nil slice of the source's length and capacity
  on a fresh backing array that holds as many elements as the length.
\<close>

theorem nil_and_empty_preserved:
  "copyRecursive (Suc n) U (t, VPtr None) cpy st = Returns (VPtr None, st)
   \<and> copyRecursive (Suc n) U (t, VSlice None) cpy st = Returns (VSlice None, st)
   \<and> copyRecursive (Suc n) U (t, VMap None) cpy st = Returns (VMap None, st)
   \<and> copyRecursive (Suc n) U (t, VInterface None) cpy st = Returns (VInterface None, st)
   \<and> (elemType t = Some et \<longrightarrow> backingAt (mem st) a = Some es \<longrightarrow>
        copyRecursive (Suc n) U (t, VSlice (Some (a, 0, cap))) cpy st
          = Returns (VSlice (Some (length (mem st), 0, cap)), st\<lparr>mem := mem st @ [Backing []]\<rparr>))
   \<and> (keyType t = Some kt \<longrightarrow> elemType t = Some et \<longrightarrow> mapAt (mem st) a = Some [] \<longrightarrow>
        copyRecursive (Suc n) U (t, VMap (Some a)) cpy st
          = Returns (VMap (Some (length (mem st))), st\<lparr>mem := mem st @ [MapObj []]\<rparr>))
   \<and> (copyRecursive m U (t, VSlice (Some (a, len, cap))) cpy st = Returns (r, st') \<longrightarrow>
        (\<exists>a' cs. r = VSlice (Some (a', len, cap)) \<and> length (mem st) \<le> a'
           \<and> backingAt (mem st') a' = Some cs \<and> length cs = len))"
proof -
  have slice: "\<exists>a' cs. r = VSlice (Some (a', len, cap)) \<and> length (mem st) \<le> a'
        \<and> backingAt (mem st') a' = Some cs \<and> length cs = len"
    if run: "copyRecursive m U (t, VSlice (Some (a, len, cap))) cpy st = Returns (r, st')"
  proof (cases m)
    case 0
    with run show ?thesis by simp
  next
    case (Suc k)
    from run [unfolded Suc] show ?thesis
    proof (cases rule: copyRecursive_sliceE)
      case (1 et es cs st2)
      have "extends (st\<lparr>mem := mem st @ [Backing (map zero_like (take len es))]\<rparr>) st2"
        by (rule copyElems_extends [rotated, OF 1(4)]) (rule copyRecursive_extends)
      from extends_length [OF this] have "length (mem st) < length (mem st2)" by simp
      with 1 copyElems_length [OF 1(4)] show ?thesis
        by (simp add: backingAt_def)
    qed
  qed
  then show ?thesis
    by (simp add: setMapIndexes_def)
qed

text \<open>\<open>[]int{}\<close> with capacity 5, an empty \<open>map[string]int\<close>, and \<open>[]int{1, 2, 3}\<close> with
  capacity 5 (the spec's scenario 3).\<close>

theorem nil_and_empty_preserved_witness:
  "copyRecursive 1 (plainUniverse []) (TSlice (TBasic IntK), VSlice (Some (0, 0, 5))) (VSlice None)
       \<lparr>mem = [Backing [], MapObj []], visited = Map.empty\<rparr>
     = Returns (VSlice (Some (2, 0, 5)), \<lparr>mem = [Backing [], MapObj [], Backing []], visited = Map.empty\<rparr>)
   \<and> copyRecursive 1 (plainUniverse []) (TMap (TBasic String) (TBasic IntK), VMap (Some 1)) (VMap None)
       \<lparr>mem = [Backing [], MapObj []], visited = Map.empty\<rparr>
     = Returns (VMap (Some 2), \<lparr>mem = [Backing [], MapObj [], MapObj []], visited = Map.empty\<rparr>)
   \<and> copyRecursive 2 (plainUniverse []) (TSlice (TBasic IntK), VSlice (Some (0, 3, 5))) (VSlice None)
       \<lparr>mem = ints123, visited = Map.empty\<rparr>
     = Returns (VSlice (Some (1, 3, 5)), \<lparr>mem = ints123 @ ints123, visited = Map.empty\<rparr>)"
proof -
  let ?st = "\<lparr>mem = [Backing [], MapObj []], visited = Map.empty\<rparr>"
  have e: "elemType (TSlice (TBasic IntK)) = Some (TBasic IntK)"
    and b: "backingAt (mem ?st) 0 = Some []"
    and k: "keyType (TMap (TBasic String) (TBasic IntK)) = Some (TBasic String)"
    and e': "elemType (TMap (TBasic String) (TBasic IntK)) = Some (TBasic IntK)"
    and m: "mapAt (mem ?st) 1 = Some []"
    by (simp_all add: elemType_def keyType_def backingAt_def mapAt_def)
  have run: "copyRecursive 2 (plainUniverse []) (TSlice (TBasic IntK), VSlice (Some (0, 3, 5))) (VSlice None)
       \<lparr>mem = ints123, visited = Map.empty\<rparr>
     = Returns (VSlice (Some (1, 3, 5)), \<lparr>mem = ints123 @ ints123, visited = Map.empty\<rparr>)"
    by (simp add: plainUniverse_def ints123_def copy_defs eval_nat_numeral)
  from nil_and_empty_preserved [of 0 "plainUniverse []" "TSlice (TBasic IntK)" "VSlice None" ?st
      "TBasic IntK" 0 "[]" 5 "TBasic String" 2 3 "VSlice (Some (1, 3, 5))"
      "\<lparr>mem = ints123 @ ints123, visited = Map.empty\<rparr>"]
    nil_and_empty_preserved [of 0 "plainUniverse []" "TMap (TBasic String) (TBasic IntK)" "VMap None" ?st
      "TBasic IntK" 1 "[]" 5 "TBasic String" 2 3 "VSlice (Some (1, 3, 5))"
      "\<lparr>mem = ints123 @ ints123, visited = Map.empty\<rparr>"]
    e b k e' m run
  show ?thesis by simp
qed

section \<open>The type analysis\<close>

lemma frame_refl: "vis_ok st \<Longrightarrow> frame st st"
  by (simp add: frame_def)

lemma frame_except_refl: "vis_ok st \<Longrightarrow> frame_except p st st"
  by (simp add: frame_except_def)

lemma frame_trans: "frame a b \<Longrightarrow> frame b c \<Longrightarrow> frame a c"
  by (auto simp: frame_def intro: map_le_trans)

lemma frame_except_trans: "frame_except p a b \<Longrightarrow> frame_except p b c \<Longrightarrow> frame_except p a c"
  by (auto simp: frame_except_def intro: map_le_trans)

lemma frame_imp_except: "frame a b \<Longrightarrow> frame_except p a b"
  by (auto simp: frame_def frame_except_def)

lemma modify_simps [simp]:
  "visitedT (modify p f st) = visitedT st"
  "length (results (modify p f st)) = length (results st)"
  "vis_ok (modify p f st) = vis_ok st"
  by (simp_all add: modify_def vis_ok_def)

lemma modify_nth:
  "results (modify p f st) ! i = (if i = p \<and> p < length (results st) then f (results st ! p) else results st ! i)"
  by (cases "p < length (results st)") (auto simp: modify_def nth_list_update list_update_beyond)

lemma frame_except_modify: "vis_ok st \<Longrightarrow> frame_except p st (modify p f st)"
  by (simp add: frame_except_def modify_nth)

lemma frame_modify_new:
  "frame st st2 \<Longrightarrow> length (results st) \<le> p \<Longrightarrow> frame st (modify p f st2)"
  by (auto simp: frame_def modify_nth)

lemma register_simps [simp]:
  "visitedT (register t st) = (visitedT st)(t \<mapsto> length (results st))"
  "results (register t st) = results st @ [newResult (rtype_String t)]"
  by (simp_all add: register_def)

lemma frame_register:
  "vis_ok st \<Longrightarrow> visitedT st t = None \<Longrightarrow> frame st (register t st)"
  by (auto simp: frame_def vis_ok_def map_le_def nth_append less_Suc_eq)

lemma structPrologue_simps [simp]:
  "visitedT (structPrologue p fs st) = visitedT st"
  "length (results (structPrologue p fs st)) = length (results st)"
  "vis_ok (structPrologue p fs st) = vis_ok st"
  by (simp_all add: structPrologue_def)

lemma structPrologue_nth:
  "i \<noteq> p \<Longrightarrow> results (structPrologue p fs st) ! i = results st ! i"
  by (simp add: structPrologue_def modify_nth)

lemma frame_structPrologue_new:
  "frame st st2 \<Longrightarrow> length (results st) \<le> p \<Longrightarrow> frame st (structPrologue p fs st2)"
  by (auto simp: frame_def structPrologue_nth)

lemma frame_length: "frame st st' \<Longrightarrow> length (results st) \<le> length (results st')"
  by (simp add: frame_def)

lemma analyzeFields_frame:
  assumes IH: "\<And>t st r st'. analyzeTypeRecursive n D t st = Some (r, st') \<Longrightarrow> vis_ok st
                 \<Longrightarrow> frame st st' \<and> r < length (results st')"
  shows "analyzeFields n D p fs st = Some st' \<Longrightarrow> vis_ok st \<Longrightarrow> frame_except p st st'"
proof (induction fs arbitrary: st)
  case Nil
  then show ?case by (simp add: frame_except_refl)
next
  case (Cons field fs)
  show ?case
  proof (cases "PkgPath field \<noteq> []")
    case True
    with Cons show ?thesis by simp
  next
    case False
    with Cons.prems obtain fieldResult st1 where
      a: "analyzeTypeRecursive n D (Type field) st = Some (fieldResult, st1)" and
      r: "analyzeFields n D p fs
            (modify p (mergeField (Name field) fieldResult (results st1 ! fieldResult)) st1) = Some st'"
      by (auto split: option.splits)
    from IH [OF a Cons.prems(2)] have f1: "frame st st1" by simp
    then have v1: "vis_ok st1" by (simp add: frame_def)
    have "frame_except p st1 (modify p (mergeField (Name field) fieldResult (results st1 ! fieldResult)) st1)"
      using v1 by (rule frame_except_modify)
    moreover have "frame_except p (modify p (mergeField (Name field) fieldResult (results st1 ! fieldResult)) st1) st'"
      using r v1 by (intro Cons.IH) simp_all
    ultimately show ?thesis
      using f1 by (blast intro: frame_except_trans frame_imp_except)
  qed
qed

lemma analyzeTypeRecursive_frame:
  "analyzeTypeRecursive n D t st = Some (r, st') \<Longrightarrow> vis_ok st
     \<Longrightarrow> frame st st' \<and> r < length (results st')"
proof (induction n arbitrary: t st r st')
  case 0
  then show ?case by simp
next
  case (Suc n)
  show ?case
  proof (cases "visitedT st t")
    case (Some x)
    with Suc.prems show ?thesis
      by (auto simp: frame_refl vis_ok_def)
  next
    case None
    let ?p = "length (results st)"
    have fr: "frame st (register t st)"
      using Suc.prems(2) None by (rule frame_register)
    then have vr: "vis_ok (register t st)" by (simp add: frame_def)
    have leaf: "frame st (modify ?p f (register t st)) \<and> ?p < length (results (modify ?p f (register t st)))" for f
      using fr by (simp add: frame_modify_new)
    have rec: "frame st (modify ?p f s2) \<and> ?p < length (results (modify ?p f s2))"
      if "analyzeTypeRecursive n D e s1 = Some (x, s2)" "frame st s1" "?p < length (results s1)" for e s1 x s2 f
    proof -
      from that(2) have "vis_ok s1" by (simp add: frame_def)
      from Suc.IH [OF that(1) this] have "frame s1 s2" by simp
      with that(2) have "frame st s2" by (blast intro: frame_trans)
      moreover from \<open>frame s1 s2\<close> that(3) have "?p < length (results s2)"
        by (auto dest: frame_length)
      ultimately show ?thesis by (simp add: frame_modify_new)
    qed
    have step: "frame st s2 \<and> ?p < length (results s2)"
      if "analyzeTypeRecursive n D e s1 = Some (x, s2)" "frame st s1" "?p < length (results s1)" for e s1 x s2
    proof -
      from that(2) have "vis_ok s1" by (simp add: frame_def)
      from Suc.IH [OF that(1) this] have "frame s1 s2" by simp
      with that(2) have "frame st s2" by (blast intro: frame_trans)
      moreover from \<open>frame s1 s2\<close> that(3) have "?p < length (results s2)"
        by (auto dest: frame_length)
      ultimately show ?thesis by simp
    qed
    have pre: "frame st (modify ?p f (register t st))" "?p < length (results (modify ?p f (register t st)))" for f
      using leaf by simp_all
    show ?thesis
    proof (cases "underlying t")
      case (TStruct name)
      let ?s3 = "structPrologue ?p (declaredFields D name) (register t st)"
      from Suc.prems(1) None TStruct have
        a: "analyzeFields n D ?p (declaredFields D name) ?s3 = Some st'" and r: "r = ?p"
        by (auto split: option.splits)
      have f3: "frame st ?s3" using fr by (simp add: frame_structPrologue_new)
      then have v3: "vis_ok ?s3" by (simp add: frame_def)
      have "frame_except ?p ?s3 st'"
        by (rule analyzeFields_frame [rotated, OF a v3]) (rule Suc.IH)
      with f3 have "frame st st'"
        by (auto simp: frame_def frame_except_def intro: map_le_trans)
      moreover from \<open>frame_except ?p ?s3 st'\<close> have "?p < length (results st')"
        by (auto simp: frame_except_def)
      ultimately show ?thesis using r by simp
    next
      case (TMap k e)
      from Suc.prems(1) None TMap obtain kr s3 vr s4 where
        a: "analyzeTypeRecursive n D k
              (modify ?p (\<lambda>r. r\<lparr>IsOnlyValues := False, ContainsMap := True\<rparr>) (register t st)) = Some (kr, s3)"
        and b: "analyzeTypeRecursive n D e s3 = Some (vr, s4)"
        and r: "r = ?p" "st' = modify ?p (inheritMap (results s4 ! kr) (results s4 ! vr)) s4"
        by (auto split: option.splits)
      from step [OF a pre] have "frame st s3" "?p < length (results s3)" by simp_all
      from rec [OF b this] r show ?thesis by simp
    qed (use Suc.prems(1) None leaf rec [OF _ pre] rec [OF _ fr] in \<open>auto split: option.splits\<close>)
  qed
qed


lemma subtypes_self: "t \<in> set (subtypes t)"
  by (cases t) auto

lemma subtypes_trans: "u \<in> set (subtypes t) \<Longrightarrow> set (subtypes u) \<subseteq> set (subtypes t)"
  by (induction t) (auto simp: subtypes_self)

lemma underlying_subtypes: "set (subtypes (underlying t)) \<subseteq> set (subtypes t)"
  by (induction t) auto

lemma underlying_elem:
  "underlying t = TArray k e \<Longrightarrow> e \<in> set (subtypes t)"
  "underlying t = TPtr e \<Longrightarrow> e \<in> set (subtypes t)"
  "underlying t = TSlice e \<Longrightarrow> e \<in> set (subtypes t)"
  "underlying t = TMap k' e \<Longrightarrow> e \<in> set (subtypes t)"
  "underlying t = TMap e k' \<Longrightarrow> e \<in> set (subtypes t)"
  using underlying_subtypes [of t] by (auto simp: subtypes_self)

lemma typeUniverse_closed:
  assumes "u \<in> set (typeUniverse D t)"
  shows "set (subtypes u) \<subseteq> set (typeUniverse D t)"
  using assms by (auto simp: typeUniverse_def dest: subtypes_trans)

lemma typeUniverse_fields:
  assumes "f \<in> set (declaredFields D name)"
  shows "Type f \<in> set (typeUniverse D t)"
proof -
  from assms obtain fs where "map_of D name = Some fs" "f \<in> set fs"
    by (cases "map_of D name") (auto simp: declaredFields_def)
  then have "(name, fs) \<in> set D" by (auto dest: map_of_SomeD)
  with \<open>f \<in> set fs\<close> show ?thesis
    by (force simp: typeUniverse_def subtypes_self)
qed

lemma card_unvisited_less:
  assumes "finite S" "t \<in> S" "m t = None"
  shows "card (S - dom (m(t \<mapsto> x))) < card (S - dom m)"
proof -
  have "S - dom (m(t \<mapsto> x)) \<subset> S - dom m"
    using assms(2,3) by auto
  with assms(1) show ?thesis
    by (intro psubset_card_mono) auto
qed

lemma card_unvisited_mono:
  assumes "finite S" "dom m \<subseteq> dom m'"
  shows "card (S - dom m') \<le> card (S - dom m)"
  using assms by (intro card_mono) auto

lemma analyzeFields_total:
  assumes fin: "finite S"
    and IH: "\<And>t st. t \<in> S \<Longrightarrow> card (S - dom (visitedT st)) < n \<Longrightarrow>
               \<exists>r st'. analyzeTypeRecursive n D t st = Some (r, st') \<and> dom (visitedT st) \<subseteq> dom (visitedT st')"
  shows "\<forall>f\<in>set fs. Type f \<in> S \<Longrightarrow> card (S - dom (visitedT st)) < n \<Longrightarrow>
           \<exists>st'. analyzeFields n D p fs st = Some st' \<and> dom (visitedT st) \<subseteq> dom (visitedT st')"
proof (induction fs arbitrary: st)
  case Nil
  then show ?case by simp
next
  case (Cons field fs)
  show ?case
  proof (cases "PkgPath field \<noteq> []")
    case True
    with Cons show ?thesis by simp
  next
    case False
    from Cons.prems have "Type field \<in> S" by simp
    from IH [OF this Cons.prems(2)] obtain r st1 where
      a: "analyzeTypeRecursive n D (Type field) st = Some (r, st1)" and d: "dom (visitedT st) \<subseteq> dom (visitedT st1)"
      by blast
    let ?s = "modify p (mergeField (Name field) r (results st1 ! r)) st1"
    from card_unvisited_mono [OF fin d] Cons.prems(2) have "card (S - dom (visitedT ?s)) < n"
      by simp
    with Cons.IH [of ?s] Cons.prems(1) obtain st' where
      "analyzeFields n D p fs ?s = Some st'" "dom (visitedT ?s) \<subseteq> dom (visitedT st')"
      by auto
    with a d False show ?thesis by auto
  qed
qed

lemma analyzeTypeRecursive_total:
  assumes fin: "finite S"
    and sub: "\<And>u. u \<in> S \<Longrightarrow> set (subtypes u) \<subseteq> S"
    and str: "\<And>name f. f \<in> set (declaredFields D name) \<Longrightarrow> Type f \<in> S"
  shows "t \<in> S \<Longrightarrow> card (S - dom (visitedT st)) < n \<Longrightarrow>
           \<exists>r st'. analyzeTypeRecursive n D t st = Some (r, st') \<and> dom (visitedT st) \<subseteq> dom (visitedT st')"
proof (induction n arbitrary: t st)
  case 0
  then show ?case by simp
next
  case (Suc n)
  show ?case
  proof (cases "visitedT st t")
    case (Some x)
    then show ?thesis by simp
  next
    case None
    let ?p = "length (results st)"
    from card_unvisited_less [of S t "visitedT st" "length (results st)", OF fin Suc.prems(1) None] Suc.prems(2)
    have c: "card (S - dom (visitedT (register t st))) < n"
      by simp
    have d0: "dom (visitedT st) \<subseteq> dom (visitedT (register t st))"
      by auto
    have rec: "\<exists>r s2. analyzeTypeRecursive n D e s1 = Some (r, s2) \<and> dom (visitedT st) \<subseteq> dom (visitedT s2)
                 \<and> card (S - dom (visitedT s2)) < n"
      if "e \<in> S" "card (S - dom (visitedT s1)) < n" "dom (visitedT st) \<subseteq> dom (visitedT s1)" for e s1
    proof -
      from Suc.IH [OF that(1,2)] obtain r s2 where
        a: "analyzeTypeRecursive n D e s1 = Some (r, s2)" and d: "dom (visitedT s1) \<subseteq> dom (visitedT s2)"
        by blast
      from card_unvisited_mono [OF fin d] that(2) have "card (S - dom (visitedT s2)) < n" by simp
      with a d that(3) show ?thesis by blast
    qed
    have cm: "card (S - dom (visitedT (modify ?p f (register t st)))) < n" for f
      using c by simp
    have dm: "dom (visitedT st) \<subseteq> dom (visitedT (modify ?p f (register t st)))" for f
      by auto
    from Suc.prems(1) have ts: "set (subtypes t) \<subseteq> S" by (rule sub)
    show ?thesis
    proof (cases "underlying t")
      case (TArray k e)
      with ts have "e \<in> S" by (auto dest: underlying_elem)
      from rec [OF this c d0] obtain r s2 where
        "analyzeTypeRecursive n D e (register t st) = Some (r, s2)" "dom (visitedT st) \<subseteq> dom (visitedT s2)"
        by blast
      with None TArray show ?thesis by simp
    next
      case (TPtr e)
      with ts have "e \<in> S" by (auto dest: underlying_elem)
      from rec [OF this cm dm] obtain r s2 where
        "analyzeTypeRecursive n D e
           (modify ?p (\<lambda>r. r\<lparr>IsOnlyValues := False, ContainsPtr := True\<rparr>) (register t st)) = Some (r, s2)"
        "dom (visitedT st) \<subseteq> dom (visitedT s2)"
        by blast
      with None TPtr show ?thesis by simp
    next
      case (TSlice e)
      with ts have "e \<in> S" by (auto dest: underlying_elem)
      from rec [OF this cm dm] obtain r s2 where
        "analyzeTypeRecursive n D e
           (modify ?p (\<lambda>r. r\<lparr>IsOnlyValues := False, ContainsSlice := True\<rparr>) (register t st)) = Some (r, s2)"
        "dom (visitedT st) \<subseteq> dom (visitedT s2)"
        by blast
      with None TSlice show ?thesis by simp
    next
      case (TMap k e)
      with ts have k: "k \<in> S" and e: "e \<in> S" by (auto dest: underlying_elem)
      from rec [OF k cm dm] obtain kr s3 where
        a: "analyzeTypeRecursive n D k
              (modify ?p (\<lambda>r. r\<lparr>IsOnlyValues := False, ContainsMap := True\<rparr>) (register t st)) = Some (kr, s3)"
        and d3: "dom (visitedT st) \<subseteq> dom (visitedT s3)" and c3: "card (S - dom (visitedT s3)) < n"
        by blast
      from rec [OF e c3 d3] obtain vr s4 where
        "analyzeTypeRecursive n D e s3 = Some (vr, s4)" "dom (visitedT st) \<subseteq> dom (visitedT s4)"
        by blast
      with a None TMap show ?thesis by simp
    next
      case (TStruct name)
      let ?s3 = "structPrologue ?p (declaredFields D name) (register t st)"
      have "\<forall>f\<in>set (declaredFields D name). Type f \<in> S"
        using str by blast
      moreover have "card (S - dom (visitedT ?s3)) < n" using c by simp
      ultimately obtain st' where
        "analyzeFields n D ?p (declaredFields D name) ?s3 = Some st'" "dom (visitedT ?s3) \<subseteq> dom (visitedT st')"
        using analyzeFields_total [OF fin Suc.IH, of "declaredFields D name" ?s3 ?p] by blast
      with None TStruct show ?thesis by auto
    qed (use None in auto)
  qed
qed

lemma analysis_returns:
  assumes "analysisFuel D t \<le> n"
  shows "\<exists>r st'. analyzeTypeRecursive n D t \<lparr>results = rs, visitedT = Map.empty\<rparr> = Some (r, st')"
proof -
  let ?S = "set (typeUniverse D t)"
  have "card (?S - dom (visitedT \<lparr>results = rs, visitedT = Map.empty\<rparr>)) < n"
    using assms card_length [of "typeUniverse D t"] by (simp add: analysisFuel_def)
  moreover have "t \<in> ?S" by (simp add: typeUniverse_def subtypes_self)
  ultimately show ?thesis
    using analyzeTypeRecursive_total [of ?S D t "\<lparr>results = rs, visitedT = Map.empty\<rparr>" n]
      typeUniverse_closed [of _ D t] typeUniverse_fields [of _ D _ t]
    by blast
qed


lemma update_fresh: "k \<notin> fst ` set al \<Longrightarrow> AList.update k v al = al @ [(k, v)]"
  by (induction al) auto

lemma frame_nth: "frame st st' \<Longrightarrow> i < length (results st) \<Longrightarrow> results st' ! i = results st ! i"
  by (simp add: frame_def)

lemma frame_except_nth:
  "frame_except p st st' \<Longrightarrow> i < length (results st) \<Longrightarrow> i \<noteq> p \<Longrightarrow> results st' ! i = results st ! i"
  by (simp add: frame_except_def)

lemma frame_except_length: "frame_except p st st' \<Longrightarrow> length (results st) \<le> length (results st')"
  by (simp add: frame_except_def)

lemma analyzeFields_frame_except:
  "analyzeFields n D p fs st = Some st' \<Longrightarrow> vis_ok st \<Longrightarrow> frame_except p st st'"
  by (rule analyzeFields_frame [rotated]) (auto dest: analyzeTypeRecursive_frame)

text \<open>What the second loop does to the struct's result \<open>p\<close>: it appends one entry for
  each exported field, and a flag that a merge can only set is set afterwards iff it was
  set before or is set in one of the new entries.\<close>

lemma analyzeFields_entries:
  assumes merge: "\<And>nm a fr r. X (mergeField nm a fr r) = (X r \<or> X fr)"
  shows "analyzeFields n D p fs st = Some st' \<Longrightarrow> vis_ok st \<Longrightarrow> p < length (results st) \<Longrightarrow>
     FieldAnalysis (results st ! p) = Some fa0 \<Longrightarrow>
     distinct (map Name (filter (\<lambda>f. PkgPath f = []) fs)) \<Longrightarrow>
     set (map Name (filter (\<lambda>f. PkgPath f = []) fs)) \<inter> fst ` set fa0 = {} \<Longrightarrow>
     \<exists>new. FieldAnalysis (results st' ! p) = Some (fa0 @ new)
        \<and> map fst new = map Name (filter (\<lambda>f. PkgPath f = []) fs)
        \<and> X (results st' ! p) = (X (results st ! p) \<or> (\<exists>e\<in>set new. X (results st' ! snd e)))"
proof (induction fs arbitrary: st fa0)
  case Nil
  then show ?case by simp
next
  case (Cons field fs)
  show ?case
  proof (cases "PkgPath field \<noteq> []")
    case True
    with Cons.prems have "analyzeFields n D p fs st = Some st'" by simp
    from Cons.IH [OF this Cons.prems(2,3,4)] Cons.prems(5,6) True show ?thesis by simp
  next
    case False
    with Cons.prems(1) obtain fr st1 where
      a: "analyzeTypeRecursive n D (Type field) st = Some (fr, st1)" and
      r: "analyzeFields n D p fs (modify p (mergeField (Name field) fr (results st1 ! fr)) st1) = Some st'"
      by (auto split: option.splits)
    let ?s = "modify p (mergeField (Name field) fr (results st1 ! fr)) st1"
    from analyzeTypeRecursive_frame [OF a Cons.prems(2)] have f1: "frame st st1" and fr: "fr < length (results st1)"
      by simp_all
    from f1 have v1: "vis_ok st1" by (simp add: frame_def)
    from f1 Cons.prems(3) have p1: "p < length (results st1)" by (auto dest: frame_length)
    from frame_nth [OF f1 Cons.prems(3)] have same: "results st1 ! p = results st ! p" .
    from Cons.prems(6) False have fresh: "Name field \<notin> fst ` set fa0" by auto
    have cell: "results ?s ! p = mergeField (Name field) fr (results st1 ! fr) (results st ! p)"
      using p1 same by (simp add: modify_nth)
    have fa: "FieldAnalysis (results ?s ! p) = Some (fa0 @ [(Name field, fr)])"
      using Cons.prems(4) fresh by (simp add: cell mergeField_def update_fresh)
    have d: "distinct (map Name (filter (\<lambda>f. PkgPath f = []) fs))"
      using Cons.prems(5) by (simp split: if_splits)
    have i: "set (map Name (filter (\<lambda>f. PkgPath f = []) fs)) \<inter> fst ` set (fa0 @ [(Name field, fr)]) = {}"
      using Cons.prems(5,6) False by auto
    from Cons.IH [OF r _ _ fa d i] v1 p1 obtain new where
      n1: "FieldAnalysis (results st' ! p) = Some ((fa0 @ [(Name field, fr)]) @ new)" and
      n2: "map fst new = map Name (filter (\<lambda>f. PkgPath f = []) fs)" and
      n3: "X (results st' ! p) = (X (results ?s ! p) \<or> (\<exists>e\<in>set new. X (results st' ! snd e)))"
      by auto
    have fe: "frame_except p ?s st'"
      using r v1 by (intro analyzeFields_frame_except) simp_all
    have later: "results st' ! fr = results st1 ! fr" if "fr \<noteq> p"
      using frame_except_nth [OF fe, of fr] fr that by (simp add: modify_nth)
    have x: "X (results ?s ! p) = (X (results st ! p) \<or> X (results st1 ! fr))"
      by (simp add: cell merge)
    have "X (results st' ! p) = (X (results st ! p) \<or> X (results st' ! fr) \<or> (\<exists>e\<in>set new. X (results st' ! snd e)))"
    proof (cases "fr = p")
      case True
      with x same have "X (results ?s ! p) = X (results st ! p)" by simp
      with n3 True show ?thesis by auto
    next
      case False
      with later x n3 show ?thesis by simp
    qed
    with n1 n2 False show ?thesis
      by (intro exI [of _ "(Name field, fr) # new"]) simp
  qed
qed

text \<open>The same for \<open>IsOnlyValues\<close>, which a merge can only reset.\<close>

lemma analyzeFields_IsOnlyValues:
  assumes "analyzeFields n D p fs st = Some st'" "vis_ok st" "p < length (results st)"
    "FieldAnalysis (results st ! p) = Some fa0"
    "distinct (map Name (filter (\<lambda>f. PkgPath f = []) fs))"
    "set (map Name (filter (\<lambda>f. PkgPath f = []) fs)) \<inter> fst ` set fa0 = {}"
  shows "\<exists>new. FieldAnalysis (results st' ! p) = Some (fa0 @ new)
        \<and> IsOnlyValues (results st' ! p)
            = (IsOnlyValues (results st ! p) \<and> (\<forall>e\<in>set new. IsOnlyValues (results st' ! snd e)))"
proof -
  have m: "(\<not> IsOnlyValues (mergeField nm a fr r)) = (\<not> IsOnlyValues r \<or> \<not> IsOnlyValues fr)" for nm a fr r
    by (simp add: mergeField_def)
  from analyzeFields_entries [where X = "\<lambda>r. \<not> IsOnlyValues r", OF m assms] obtain new where
    "FieldAnalysis (results st' ! p) = Some (fa0 @ new)"
    "(\<not> IsOnlyValues (results st' ! p))
       = (\<not> IsOnlyValues (results st ! p) \<or> (\<exists>e\<in>set new. \<not> IsOnlyValues (results st' ! snd e)))"
    by blast
  then show ?thesis
    by (intro exI [of _ new]) blast
qed


lemma structPrologue_cell:
  "p < length (results st) \<Longrightarrow>
   results (structPrologue p fs st) ! p =
     (results st ! p)\<lparr>IsOnlyValues := \<not> list_ex (\<lambda>field. PkgPath field \<noteq> []) fs, FieldAnalysis := Some []\<rparr>"
  by (simp add: structPrologue_def modify_nth)

text \<open>
  C7. A struct type analysed in a fresh pass with enough depth (field names distinct, as
  in every Go struct): the analysis returns; \<open>FieldAnalysis\<close> has exactly one entry for
  each exported field, in order, so a non-exported field has none; \<open>IsOnlyValues\<close> holds
  iff no field is non-exported and every entry's result is value-only; and each
  \<open>Contains\<close> flag is set iff it is set in the result of some entry, so a non-exported
  field sets none.
\<close>

theorem struct_analysis:
  assumes str: "underlying t = TStruct name"
    and dist: "distinct (map Name (filter (\<lambda>f. PkgPath f = []) (declaredFields D name)))"
    and fuel: "analysisFuel D t \<le> n"
  shows "\<exists>r st' fa. analyzeTypeRecursive n D t \<lparr>results = rs, visitedT = Map.empty\<rparr> = Some (r, st')
     \<and> FieldAnalysis (results st' ! r) = Some fa
     \<and> map fst fa = map Name (filter (\<lambda>f. PkgPath f = []) (declaredFields D name))
     \<and> IsOnlyValues (results st' ! r)
         = ((\<forall>f\<in>set (declaredFields D name). PkgPath f = []) \<and> (\<forall>e\<in>set fa. IsOnlyValues (results st' ! snd e)))
     \<and> ContainsPtr (results st' ! r) = (\<exists>e\<in>set fa. ContainsPtr (results st' ! snd e))
     \<and> ContainsSlice (results st' ! r) = (\<exists>e\<in>set fa. ContainsSlice (results st' ! snd e))
     \<and> ContainsMap (results st' ! r) = (\<exists>e\<in>set fa. ContainsMap (results st' ! snd e))
     \<and> ContainsChan (results st' ! r) = (\<exists>e\<in>set fa. ContainsChan (results st' ! snd e))
     \<and> ContainsFunc (results st' ! r) = (\<exists>e\<in>set fa. ContainsFunc (results st' ! snd e))
     \<and> ContainsIface (results st' ! r) = (\<exists>e\<in>set fa. ContainsIface (results st' ! snd e))"
proof -
  let ?st = "\<lparr>results = rs, visitedT = Map.empty\<rparr>"
  let ?p = "length rs"
  let ?fs = "declaredFields D name"
  let ?s3 = "structPrologue ?p ?fs (register t ?st)"
  from analysis_returns [OF fuel] obtain r st' where
    run: "analyzeTypeRecursive n D t ?st = Some (r, st')"
    by blast
  from fuel obtain k where n: "n = Suc k"
    by (cases n) (auto simp: analysisFuel_def)
  from run str have loop: "analyzeFields k D ?p ?fs ?s3 = Some st'" and r: "r = ?p"
    unfolding n by (auto split: option.splits)
  have v: "vis_ok ?s3"
    by (simp add: vis_ok_def)
  have p: "?p < length (results ?s3)"
    by simp
  have cell: "results ?s3 ! ?p =
      (newResult (rtype_String t))\<lparr>IsOnlyValues := \<not> list_ex (\<lambda>field. PkgPath field \<noteq> []) ?fs,
                                    FieldAnalysis := Some []\<rparr>"
    by (simp add: structPrologue_cell)
  then have fa0: "FieldAnalysis (results ?s3 ! ?p) = Some []"
    by simp
  have e: "set (map Name (filter (\<lambda>f. PkgPath f = []) ?fs)) \<inter> fst ` set [] = {}"
    by simp
  have laws:
    "ContainsPtr (mergeField nm a fr x) = (ContainsPtr x \<or> ContainsPtr fr)"
    "ContainsSlice (mergeField nm a fr x) = (ContainsSlice x \<or> ContainsSlice fr)"
    "ContainsMap (mergeField nm a fr x) = (ContainsMap x \<or> ContainsMap fr)"
    "ContainsChan (mergeField nm a fr x) = (ContainsChan x \<or> ContainsChan fr)"
    "ContainsFunc (mergeField nm a fr x) = (ContainsFunc x \<or> ContainsFunc fr)"
    "ContainsIface (mergeField nm a fr x) = (ContainsIface x \<or> ContainsIface fr)"
    for nm a fr x
    by (auto simp: mergeField_def)
  note ent = analyzeFields_entries [OF _ loop v p fa0 dist e]
  from ent [where X = ContainsPtr, OF laws(1)] obtain fa where
    fa: "FieldAnalysis (results st' ! ?p) = Some fa"
    and keys: "map fst fa = map Name (filter (\<lambda>f. PkgPath f = []) ?fs)"
    and ptr: "ContainsPtr (results st' ! ?p) = (\<exists>e\<in>set fa. ContainsPtr (results st' ! snd e))"
    by (auto simp: cell newResult_def)
  from ent [where X = ContainsSlice, OF laws(2)] fa
  have slice: "ContainsSlice (results st' ! ?p) = (\<exists>e\<in>set fa. ContainsSlice (results st' ! snd e))"
    by (auto simp: cell newResult_def)
  from ent [where X = ContainsMap, OF laws(3)] fa
  have map: "ContainsMap (results st' ! ?p) = (\<exists>e\<in>set fa. ContainsMap (results st' ! snd e))"
    by (auto simp: cell newResult_def)
  from ent [where X = ContainsChan, OF laws(4)] fa
  have chan: "ContainsChan (results st' ! ?p) = (\<exists>e\<in>set fa. ContainsChan (results st' ! snd e))"
    by (auto simp: cell newResult_def)
  from ent [where X = ContainsFunc, OF laws(5)] fa
  have func: "ContainsFunc (results st' ! ?p) = (\<exists>e\<in>set fa. ContainsFunc (results st' ! snd e))"
    by (auto simp: cell newResult_def)
  from ent [where X = ContainsIface, OF laws(6)] fa
  have iface: "ContainsIface (results st' ! ?p) = (\<exists>e\<in>set fa. ContainsIface (results st' ! snd e))"
    by (auto simp: cell newResult_def)
  from analyzeFields_IsOnlyValues [OF loop v p fa0 dist e] fa
  have iso: "IsOnlyValues (results st' ! ?p)
      = ((\<forall>f\<in>set ?fs. PkgPath f = []) \<and> (\<forall>e\<in>set fa. IsOnlyValues (results st' ! snd e)))"
    by (auto simp: cell list_ex_iff)
  from run r fa keys iso ptr slice map chan func iface show ?thesis
    by simp
qed


text \<open>
  The tests' \<open>Unexported\<close> (shortened): the non-exported slice field leaves no entry and no
  flag and resets \<open>IsOnlyValues\<close>. The README's \<open>User\<close>, all of whose fields are
  exported scalars, stays value-only.
\<close>

theorem struct_analysis_witness:
  "underlying (TStruct ''Unexported'') = TStruct ''Unexported''
   \<and> distinct (map Name (filter (\<lambda>f. PkgPath f = [])
                   (declaredFields (decls unexportedUniverse) ''Unexported'')))
   \<and> analysisFuel (decls unexportedUniverse) (TStruct ''Unexported'') \<le> 5
   \<and> (\<exists>r st' fa. analyzeTypeRecursive 5 (decls unexportedUniverse) (TStruct ''Unexported'')
                     \<lparr>results = [], visitedT = Map.empty\<rparr> = Some (r, st')
         \<and> FieldAnalysis (results st' ! r) = Some fa \<and> map fst fa = [''A'']
         \<and> \<not> IsOnlyValues (results st' ! r) \<and> \<not> ContainsSlice (results st' ! r))
   \<and> (\<exists>r st'. analyzeTypeRecursive 5 (decls userUniverse) (TStruct ''User'')
                     \<lparr>results = [], visitedT = Map.empty\<rparr> = Some (r, st')
         \<and> map_option (map fst) (FieldAnalysis (results st' ! r)) = Some [''ID'', ''Name'', ''Password'']
         \<and> IsOnlyValues (results st' ! r))"
proof -
  let ?D = "decls unexportedUniverse"
  have u: "underlying (TStruct ''Unexported'') = TStruct ''Unexported''"
    by simp
  have d: "distinct (map Name (filter (\<lambda>f. PkgPath f = []) (declaredFields ?D ''Unexported'')))"
    by (simp add: unexportedUniverse_def plainUniverse_def declaredFields_def)
  have f: "analysisFuel ?D (TStruct ''Unexported'') \<le> 5"
    by (simp add: unexportedUniverse_def plainUniverse_def analysisFuel_def typeUniverse_def)
  from struct_analysis [OF u d f, of "[]"] obtain r st' fa where
    run: "analyzeTypeRecursive 5 ?D (TStruct ''Unexported'') \<lparr>results = [], visitedT = Map.empty\<rparr> = Some (r, st')"
    and fa: "FieldAnalysis (results st' ! r) = Some fa"
    and keys: "map fst fa = map Name (filter (\<lambda>f. PkgPath f = []) (declaredFields ?D ''Unexported''))"
    and iso: "IsOnlyValues (results st' ! r)
         = ((\<forall>f\<in>set (declaredFields ?D ''Unexported''). PkgPath f = [])
            \<and> (\<forall>e\<in>set fa. IsOnlyValues (results st' ! snd e)))"
    by blast
  from keys have k: "map fst fa = [''A'']"
    by (simp add: unexportedUniverse_def plainUniverse_def declaredFields_def)
  from iso have i: "\<not> IsOnlyValues (results st' ! r)"
    by (simp add: unexportedUniverse_def plainUniverse_def declaredFields_def)
  from run have s: "\<not> ContainsSlice (results st' ! r)"
    by (auto simp: unexportedUniverse_def plainUniverse_def analysis_defs eval_nat_numeral)
  have user: "\<exists>r st'. analyzeTypeRecursive 5 (decls userUniverse) (TStruct ''User'')
                     \<lparr>results = [], visitedT = Map.empty\<rparr> = Some (r, st')
         \<and> map_option (map fst) (FieldAnalysis (results st' ! r)) = Some [''ID'', ''Name'', ''Password'']
         \<and> IsOnlyValues (results st' ! r)"
    by (simp add: userUniverse_def userFields_def analysis_defs eval_nat_numeral)
  from run fa k i s
  have ex: "\<exists>r st' fa. analyzeTypeRecursive 5 ?D (TStruct ''Unexported'')
                     \<lparr>results = [], visitedT = Map.empty\<rparr> = Some (r, st')
         \<and> FieldAnalysis (results st' ! r) = Some fa \<and> map fst fa = [''A'']
         \<and> \<not> IsOnlyValues (results st' ! r) \<and> \<not> ContainsSlice (results st' ! r)"
    by (intro exI [of _ r] exI [of _ st'] exI [of _ fa] conjI)
  from u d f ex user show ?thesis
    by (intro conjI)
qed

section \<open>Termination of the traversal: proofs\<close>

lemma settlesI: "out \<noteq> OutOfFuel \<Longrightarrow> (\<And>m. n \<le> m \<Longrightarrow> f m = out) \<Longrightarrow> settles f out"
  by (auto simp: settles_def)

lemma terminates_const: "out \<noteq> OutOfFuel \<Longrightarrow> (\<And>m. f m = out) \<Longrightarrow> terminates f"
  by (auto simp: terminates_def settles_def)

lemma terminates_Suc: "terminates (\<lambda>m. f (Suc m)) \<Longrightarrow> terminates f"
proof -
  assume "terminates (\<lambda>m. f (Suc m))"
  then obtain out n where o: "out \<noteq> OutOfFuel" and n: "\<forall>m\<ge>n. f (Suc m) = out"
    by (auto simp: terminates_def settles_def)
  have "f m = out" if "Suc n \<le> m" for m
    using that n by (cases m) auto
  with o show ?thesis
    unfolding terminates_def by (blast intro: settlesI)
qed

lemma terminates_thenDo:
  assumes "terminates f"
    and "\<And>x n. f n = Returns x \<Longrightarrow> terminates (\<lambda>m. g m x)"
  shows "terminates (\<lambda>m. thenDo (f m) (g m))"
proof -
  from assms(1) obtain out n where o: "out \<noteq> OutOfFuel" and n: "\<forall>m\<ge>n. f m = out"
    by (auto simp: terminates_def settles_def)
  show ?thesis
  proof (cases out)
    case OutOfFuel
    with o show ?thesis by simp
  next
    case Panic
    with n have "thenDo (f m) (g m) = Panic" if "n \<le> m" for m
      using that by simp
    then show ?thesis
      unfolding terminates_def by (blast intro: settlesI)
  next
    case (Returns x)
    with n have "f n = Returns x" by simp
    from assms(2) [OF this] obtain out' n' where
      o': "out' \<noteq> OutOfFuel" and n': "\<forall>m\<ge>n'. g m x = out'"
      by (auto simp: terminates_def settles_def)
    have "thenDo (f m) (g m) = out'" if "max n n' \<le> m" for m
      using that n n' Returns by simp
    with o' show ?thesis
      unfolding terminates_def by (blast intro: settlesI)
  qed
qed

lemma terminates_thenDo_const:
  assumes "terminates f" and "\<And>x. k x \<noteq> OutOfFuel"
  shows "terminates (\<lambda>m. thenDo (f m) k)"
proof (rule terminates_thenDo [OF assms(1)])
  fix x n
  show "terminates (\<lambda>m. k x)"
    by (rule terminates_const [OF assms(2)]) simp
qed

lemma selfMap_diverges:
  "mapAt (mem st) 0 = Some [(VScalar (SString ''self''), VInterface (Some (selfMapType, VMap (Some 0))))]
     \<Longrightarrow> copyRecursive n U (selfMapType, VMap (Some 0)) cpy st = OutOfFuel"
proof (induction n arbitrary: st cpy rule: less_induct)
  case (less n)
  show ?case
  proof (cases n)
    case 0
    then show ?thesis by simp
  next
    case m: (Suc m)
    show ?thesis
    proof (cases m)
      case 0
      with m less.prems show ?thesis
        by (simp add: selfMapType_def keyType_def elemType_def)
    next
      case k: (Suc k)
      show ?thesis
      proof (cases k)
        case 0
        with m k less.prems show ?thesis
          by (simp add: selfMapType_def keyType_def elemType_def)
      next
        case (Suc j)
        have "mapAt (mem (st\<lparr>mem := mem st @ [MapObj []]\<rparr>)) 0
            = Some [(VScalar (SString ''self''), VInterface (Some (selfMapType, VMap (Some 0))))]"
          using less.prems by (auto simp: mapAt_def nth_append split: if_splits)
        from less.IH [OF _ this, of k "VMap None"] m k
        have "copyRecursive k U (selfMapType, VMap (Some 0)) (VMap None) (st\<lparr>mem := mem st @ [MapObj []]\<rparr>)
            = OutOfFuel"
          by simp
        with m k less.prems show ?thesis
          by (simp add: selfMapType_def keyType_def elemType_def)
      qed
    qed
  qed
qed

text \<open>
  The copy of the map that holds itself does not return: at every depth bound the
  traversal is still descending.
\<close>

theorem self_containing_map_never_returns:
  "\<forall>n. copyRecursive n (plainUniverse []) (selfMapType, VMap (Some 0)) (VMap None)
         \<lparr>mem = selfMap, visited = Map.empty\<rparr> = OutOfFuel"
  by (simp add: selfMap_diverges selfMap_def mapAt_def)

lemma terminates_Returns [simp]: "terminates (\<lambda>n. Returns x)"
  by (rule terminates_const [of "Returns x"]) simp_all

lemma terminates_Panic [simp]: "terminates (\<lambda>n. Panic)"
  by (rule terminates_const [of Panic]) simp_all

lemma terminates_setChecked [simp]: "terminates (\<lambda>n. thenDo (setChecked U t x) (\<lambda>c. Returns (k c)))"
  by (rule terminates_const [of "thenDo (setChecked U t x) (\<lambda>c. Returns (k c))"])
     (simp_all add: setChecked_def)

lemma terminates_wrapResult [simp]: "terminates (\<lambda>n. wrapResult U t p r st)"
  by (rule terminates_const [of "wrapResult U t p r st"])
     (simp_all add: wrapResult_def setChecked_def Let_def)

lemma source_intact_extends: "extends st st' \<Longrightarrow> source_intact src st \<Longrightarrow> source_intact src st'"
  by (auto simp: source_intact_def extends_def)

lemma source_intact_alloc [simp]:
  "source_intact src st \<Longrightarrow> source_intact src (st\<lparr>mem := mem st @ new\<rparr>)"
  by (auto simp: source_intact_def)

lemma source_intact_alloc_visited [simp]:
  "source_intact src st \<Longrightarrow> source_intact src (st\<lparr>mem := mem st @ new, visited := tbl\<rparr>)"
  by (auto simp: source_intact_def)

lemma source_intact_nth: "source_intact src st \<Longrightarrow> a < length src \<Longrightarrow> mem st ! a = src ! a"
  by (auto simp: source_intact_def nth_append)

lemma unvisited_extends: "extends st st' \<Longrightarrow> unvisited src st' \<le> unvisited src st"
  unfolding unvisited_def extends_def
  by (intro card_mono) (auto simp: map_le_def dom_def)

lemma unvisited_alloc [simp]: "unvisited src (st\<lparr>mem := m\<rparr>) = unvisited src st"
  by (simp add: unvisited_def)

lemma unvisited_less:
  assumes "p < length src" "visited st p = None"
  shows "unvisited src (st\<lparr>mem := m, visited := (visited st)(p \<mapsto> x)\<rparr>) < unvisited src st"
proof -
  have "{..<length src} - dom ((visited st)(p \<mapsto> x)) \<subset> {..<length src} - dom (visited st)"
    using assms by auto
  then show ?thesis
    unfolding unvisited_def by (simp add: psubset_card_mono)
qed

lemma rankOf_member: "x \<in> set vs \<Longrightarrow> rankOf rk x \<le> foldr max (map (rankOf rk) vs) 0"
  by (induction vs) (auto simp: max_def)

lemma size_member: "x \<in> set vs \<Longrightarrow> size x < Suc (size_list size vs)"
  by (induction vs) auto

lemma cyclesThroughPointers_obj:
  "cyclesThroughPointers rk src \<Longrightarrow> a < length src \<Longrightarrow> rankedObj rk (length src) a (src ! a)"
  by (simp add: cyclesThroughPointers_def list_all_iff)

lemma source_cell:
  assumes "cyclesThroughPointers rk src" "source_intact src st" "p < length src"
    "cellAt (mem st) p = Some x"
  shows "closedVal (length src) x"
  using cyclesThroughPointers_obj [OF assms(1,3)] source_intact_nth [OF assms(2,3)] assms(4)
  by (auto simp: cellAt_def rankedObj_def split: if_splits obj.splits)

lemma source_backing:
  assumes "cyclesThroughPointers rk src" "source_intact src st" "a < length src"
    "backingAt (mem st) a = Some es" "x \<in> set es"
  shows "closedVal (length src) x \<and> rankOf rk x \<le> rk a"
  using cyclesThroughPointers_obj [OF assms(1,3)] source_intact_nth [OF assms(2,3)] assms(4,5)
  by (auto simp: backingAt_def rankedObj_def list_all_iff split: if_splits obj.splits)

lemma source_map:
  assumes "cyclesThroughPointers rk src" "source_intact src st" "a < length src"
    "mapAt (mem st) a = Some es" "kv \<in> set es"
  shows "closedVal (length src) (fst kv) \<and> rankOf rk (fst kv) \<le> rk a
       \<and> closedVal (length src) (snd kv) \<and> rankOf rk (snd kv) \<le> rk a"
  using cyclesThroughPointers_obj [OF assms(1,3)] source_intact_nth [OF assms(2,3)] assms(4,5)
  by (auto simp: mapAt_def rankedObj_def list_all_iff split: if_splits obj.splits)

lemma copyElems_terminates:
  assumes step: "\<And>x cpy s'. x \<in> set xs \<Longrightarrow> source_intact src s' \<Longrightarrow> unvisited src s' \<le> K
                   \<Longrightarrow> terminates (\<lambda>n. copyRecursive n U (et, x) cpy s')"
  shows "source_intact src s \<Longrightarrow> unvisited src s \<le> K \<Longrightarrow> terminates (\<lambda>n. copyElems n U et xs s)"
  using step
proof (induction xs arbitrary: s)
  case Nil
  show ?case by simp
next
  case (Cons x xs)
  have "terminates (\<lambda>n. thenDo (copyRecursive n U (et, x) (zero_like x) s)
          (\<lambda>(c, st1). thenDo (copyElems n U et xs st1) (\<lambda>(cs, st2). Returns (c # cs, st2))))"
  proof (rule terminates_thenDo)
    show "terminates (\<lambda>n. copyRecursive n U (et, x) (zero_like x) s)"
      using Cons.prems by simp
  next
    fix r n
    assume run: "copyRecursive n U (et, x) (zero_like x) s = Returns r"
    obtain c s1 where r: "r = (c, s1)" by (cases r)
    from run r have ext: "extends s s1" by (auto dest: copyRecursive_extends)
    have "terminates (\<lambda>m. copyElems m U et xs s1)"
    proof (rule Cons.IH)
      show "source_intact src s1" using ext Cons.prems(1) by (rule source_intact_extends)
      show "unvisited src s1 \<le> K" using unvisited_extends [OF ext, of src] Cons.prems(2) by simp
    qed (simp add: Cons.prems(3))
    then have "terminates (\<lambda>m. thenDo (copyElems m U et xs s1) (\<lambda>(cs, st2). Returns (c # cs, st2)))"
      by (rule terminates_thenDo_const) (simp split: prod.splits)
    then show "terminates (\<lambda>m. (case r of (c, st1) \<Rightarrow>
                 thenDo (copyElems m U et xs st1) (\<lambda>(cs, st2). Returns (c # cs, st2))))"
      by (simp add: r)
  qed
  then show ?case by simp
qed

lemma copyArray_terminates:
  assumes step: "\<And>x cpy s'. x \<in> set vs \<Longrightarrow> source_intact src s' \<Longrightarrow> unvisited src s' \<le> K
                   \<Longrightarrow> terminates (\<lambda>n. copyRecursive n U (et, x) cpy s')"
  shows "source_intact src s \<Longrightarrow> unvisited src s \<le> K \<Longrightarrow> terminates (\<lambda>n. copyArray n U et vs ds s)"
  using step
proof (induction vs arbitrary: ds s)
  case Nil
  show ?case by simp
next
  case (Cons x vs)
  show ?case
  proof (cases ds)
    case Nil
    then show ?thesis by simp
  next
    case ds: (Cons d ds')
    have "terminates (\<lambda>n. thenDo (copyRecursive n U (et, x) d s)
            (\<lambda>(c, st1). thenDo (copyArray n U et vs ds' st1) (\<lambda>(cs, st2). Returns (c # cs, st2))))"
    proof (rule terminates_thenDo)
      show "terminates (\<lambda>n. copyRecursive n U (et, x) d s)"
        using Cons.prems by simp
    next
      fix r n
      assume run: "copyRecursive n U (et, x) d s = Returns r"
      obtain c s1 where r: "r = (c, s1)" by (cases r)
      from run r have ext: "extends s s1" by (auto dest: copyRecursive_extends)
      have "terminates (\<lambda>m. copyArray m U et vs ds' s1)"
      proof (rule Cons.IH)
        show "source_intact src s1" using ext Cons.prems(1) by (rule source_intact_extends)
        show "unvisited src s1 \<le> K" using unvisited_extends [OF ext, of src] Cons.prems(2) by simp
      qed (simp add: Cons.prems(3))
      then have "terminates (\<lambda>m. thenDo (copyArray m U et vs ds' s1) (\<lambda>(cs, st2). Returns (c # cs, st2)))"
        by (rule terminates_thenDo_const) (simp split: prod.splits)
      then show "terminates (\<lambda>m. (case r of (c, st1) \<Rightarrow>
                   thenDo (copyArray m U et vs ds' st1) (\<lambda>(cs, st2). Returns (c # cs, st2))))"
        by (simp add: r)
    qed
    then show ?thesis by (simp add: ds)
  qed
qed

lemma copyFields_terminates:
  assumes step: "\<And>x tx cpy s'. x \<in> set vs \<Longrightarrow> source_intact src s' \<Longrightarrow> unvisited src s' \<le> K
                   \<Longrightarrow> terminates (\<lambda>n. copyRecursive n U (tx, x) cpy s')"
  shows "source_intact src s \<Longrightarrow> unvisited src s \<le> K \<Longrightarrow> terminates (\<lambda>n. copyFields n U fs vs ds s)"
  using step
proof (induction fs arbitrary: vs ds s)
  case Nil
  show ?case by simp
next
  case (Cons field fs)
  show ?case
  proof (cases vs)
    case Nil
    then show ?thesis by simp
  next
    case vs: (Cons x vs')
    show ?thesis
    proof (cases ds)
      case Nil
      then show ?thesis by (simp add: vs)
    next
      case ds: (Cons d ds')
      have rest: "terminates (\<lambda>m. copyFields m U fs vs' ds' s1)"
        if "source_intact src s1" "unvisited src s1 \<le> K" for s1
        using that by (rule Cons.IH) (simp add: Cons.prems(3) vs)
      show ?thesis
      proof (cases "PkgPath field \<noteq> []")
        case True
        have "terminates (\<lambda>n. thenDo (copyFields n U fs vs' ds' s) (\<lambda>(cs, st1). Returns (d # cs, st1)))"
          using rest [OF Cons.prems(1,2)]
          by (rule terminates_thenDo_const) (simp split: prod.splits)
        with True show ?thesis by (simp add: vs ds)
      next
        case False
        have "terminates (\<lambda>n. thenDo (copyRecursive n U (Type field, x) d s)
                (\<lambda>(c, st1). thenDo (copyFields n U fs vs' ds' st1) (\<lambda>(cs, st2). Returns (c # cs, st2))))"
        proof (rule terminates_thenDo)
          show "terminates (\<lambda>n. copyRecursive n U (Type field, x) d s)"
            using Cons.prems by (simp add: vs)
        next
          fix r n
          assume run: "copyRecursive n U (Type field, x) d s = Returns r"
          obtain c s1 where r: "r = (c, s1)" by (cases r)
          from run r have ext: "extends s s1" by (auto dest: copyRecursive_extends)
          have "terminates (\<lambda>m. copyFields m U fs vs' ds' s1)"
          proof (rule rest)
            show "source_intact src s1" using ext Cons.prems(1) by (rule source_intact_extends)
            show "unvisited src s1 \<le> K" using unvisited_extends [OF ext, of src] Cons.prems(2) by simp
          qed
          then have "terminates (\<lambda>m. thenDo (copyFields m U fs vs' ds' s1) (\<lambda>(cs, st2). Returns (c # cs, st2)))"
            by (rule terminates_thenDo_const) (simp split: prod.splits)
          then show "terminates (\<lambda>m. (case r of (c, st1) \<Rightarrow>
                       thenDo (copyFields m U fs vs' ds' st1) (\<lambda>(cs, st2). Returns (c # cs, st2))))"
            by (simp add: r)
        qed
        with False show ?thesis by (simp add: vs ds)
      qed
    qed
  qed
qed

lemma copyEntries_terminates:
  assumes step: "\<And>x tx cpy s'. x \<in> fst ` set es \<union> snd ` set es \<Longrightarrow> source_intact src s'
                   \<Longrightarrow> unvisited src s' \<le> K
                   \<Longrightarrow> terminates (\<lambda>n. copyRecursive n U (tx, x) cpy s')"
  shows "source_intact src s \<Longrightarrow> unvisited src s \<le> K \<Longrightarrow> terminates (\<lambda>n. copyEntries n U kt et es s)"
  using step
proof (induction es arbitrary: s)
  case Nil
  show ?case by simp
next
  case (Cons e es)
  have "terminates (\<lambda>n. thenDo (copyRecursive n U (et, snd e) (zero_like (snd e)) s)
      (\<lambda>(copyValue, st1).
         thenDo (copyRecursive n U (kt, fst e) (zero_like (fst e)) st1)
           (\<lambda>(copyKey, st2).
              thenDo (copyEntries n U kt et es st2)
                (\<lambda>(kvs, st3). Returns ((copyKey, copyValue) # kvs, st3)))))"
  proof (rule terminates_thenDo)
    show "terminates (\<lambda>n. copyRecursive n U (et, snd e) (zero_like (snd e)) s)"
      using Cons.prems by simp
  next
    fix r n
    assume run: "copyRecursive n U (et, snd e) (zero_like (snd e)) s = Returns r"
    obtain c s1 where r: "r = (c, s1)" by (cases r)
    from run r have ext: "extends s s1" by (auto dest: copyRecursive_extends)
    have s1: "source_intact src s1" using ext Cons.prems(1) by (rule source_intact_extends)
    have u1: "unvisited src s1 \<le> K" using unvisited_extends [OF ext, of src] Cons.prems(2) by simp
    have "terminates (\<lambda>m. thenDo (copyRecursive m U (kt, fst e) (zero_like (fst e)) s1)
           (\<lambda>(copyKey, st2).
              thenDo (copyEntries m U kt et es st2)
                (\<lambda>(kvs, st3). Returns ((copyKey, c) # kvs, st3))))"
    proof (rule terminates_thenDo)
      show "terminates (\<lambda>n. copyRecursive n U (kt, fst e) (zero_like (fst e)) s1)"
        using s1 u1 Cons.prems(3) by simp
    next
      fix r2 n2
      assume run2: "copyRecursive n2 U (kt, fst e) (zero_like (fst e)) s1 = Returns r2"
      obtain k s2 where r2: "r2 = (k, s2)" by (cases r2)
      from run2 r2 have ext2: "extends s1 s2" by (auto dest: copyRecursive_extends)
      have "terminates (\<lambda>m. copyEntries m U kt et es s2)"
      proof (rule Cons.IH)
        show "source_intact src s2" using ext2 s1 by (rule source_intact_extends)
        show "unvisited src s2 \<le> K" using unvisited_extends [OF ext2, of src] u1 by simp
      qed (simp add: Cons.prems(3))
      then have "terminates (\<lambda>m. thenDo (copyEntries m U kt et es s2)
                   (\<lambda>(kvs, st3). Returns ((k, c) # kvs, st3)))"
        by (rule terminates_thenDo_const) (simp split: prod.splits)
      then show "terminates (\<lambda>m. (case r2 of (copyKey, st2) \<Rightarrow>
              thenDo (copyEntries m U kt et es st2)
                (\<lambda>(kvs, st3). Returns ((copyKey, c) # kvs, st3))))"
        by (simp add: r2)
    qed
    then show "terminates (\<lambda>m. (case r of (copyValue, st1) \<Rightarrow>
         thenDo (copyRecursive m U (kt, fst e) (zero_like (fst e)) st1)
           (\<lambda>(copyKey, st2).
              thenDo (copyEntries m U kt et es st2)
                (\<lambda>(kvs, st3). Returns ((copyKey, copyValue) # kvs, st3)))))"
      by (simp add: r)
  qed
  then show ?case by (cases "selfEqual (fst e)") simp_all
qed

lemma copyRecursive_terminates_aux:
  assumes wr: "cyclesThroughPointers rk src"
  shows "\<forall>t cpy. source_intact src (snd x) \<longrightarrow> closedVal (length src) (fst x)
           \<longrightarrow> terminates (\<lambda>n. copyRecursive n U (t, fst x) cpy (snd x))"
proof -
  have "wf (inv_image (less_than <*lex*> less_than <*lex*> less_than)
          (\<lambda>x. (unvisited src (snd x), rankOf rk (fst x), size (fst x))))"
    by (intro wf_inv_image wf_lex_prod wf_less_than)
  then show ?thesis
  proof (induction x rule: wf_induct_rule)
  case (less x)
  obtain v s where x: "x = (v, s)" by (cases x)
  have IH: "terminates (\<lambda>n. copyRecursive n U (t', v') cpy' s')"
    if "source_intact src s'" "closedVal (length src) v'"
      "unvisited src s' < unvisited src s
       \<or> unvisited src s' \<le> unvisited src s
          \<and> (rankOf rk v' < rankOf rk v \<or> rankOf rk v' \<le> rankOf rk v \<and> size v' < size v)"
    for t' v' cpy' s'
  proof -
    have "((v', s'), x) \<in> inv_image (less_than <*lex*> less_than <*lex*> less_than)
          (\<lambda>x. (unvisited src (snd x), rankOf rk (fst x), size (fst x)))"
      using that(3) by (auto simp: x)
    from less.IH [OF this] that(1,2) show ?thesis by simp
  qed
  show ?case
  proof (intro allI impI)
    fix t cpy
    assume "source_intact src (snd x)" "closedVal (length src) (fst x)"
    then have inv: "source_intact src s" and cl: "closedVal (length src) v"
      by (simp_all add: x)
    have "terminates (\<lambda>n. copyRecursive (Suc n) U (t, v) cpy s)"
    proof (cases v)
      case (VScalar sc)
      then show ?thesis by simp
    next
      case (VUnsafePointer p)
      then show ?thesis by simp
    next
      case (VChan c)
      then show ?thesis by simp
    next
      case (VFunc f)
      then show ?thesis by simp
    next
      case (VPtr po)
      show ?thesis
      proof (cases po)
        case None
        with VPtr show ?thesis by simp
      next
        case (Some p)
        note v = VPtr [unfolded Some]
        from cl v have p: "p < length src" by simp
        show ?thesis
        proof (cases "visited s p")
          case seen: (Some seen)
          with v show ?thesis by simp
        next
          case unseen: None
          show ?thesis
          proof (cases "hasDeepCopyMethod U t")
            case (Some dc)
            with v unseen show ?thesis by (simp split: prod.splits)
          next
            case nodc: None
            show ?thesis
            proof (cases "elemType t")
              case None
              with v unseen nodc show ?thesis by simp
            next
              case et: (Some et)
              show ?thesis
              proof (cases "cellAt (mem s) p")
                case None
                with v unseen nodc et show ?thesis by simp
              next
                case cell: (Some ov)
                show ?thesis
                proof (cases "hasDeepCopyMethod U et")
                  case (Some dc)
                  with v unseen nodc et cell show ?thesis by (simp split: prod.splits)
                next
                  case noedc: None
                  have "terminates (\<lambda>n. copyRecursive n U (et, ov) (zero_like ov)
                           (s\<lparr>mem := mem s @ [Cell (zero_like ov)],
                              visited := (visited s)(p \<mapsto> (t, VPtr (Some (length (mem s)))))\<rparr>))"
                  proof (rule IH)
                    show "closedVal (length src) ov"
                      using wr inv p cell by (rule source_cell)
                  qed (use inv unvisited_less [OF p unseen] in simp_all)
                  then have "terminates (\<lambda>n. thenDo (copyRecursive n U (et, ov) (zero_like ov)
                           (s\<lparr>mem := mem s @ [Cell (zero_like ov)],
                              visited := (visited s)(p \<mapsto> (t, VPtr (Some (length (mem s)))))\<rparr>))
                            (\<lambda>(c, st2). Returns (VPtr (Some (length (mem s))),
                                                 st2\<lparr>mem := (mem st2)[length (mem s) := Cell c]\<rparr>)))"
                    by (rule terminates_thenDo_const) (simp split: prod.splits)
                  with v unseen nodc et cell noedc show ?thesis by simp
                qed
              qed
            qed
          qed
        qed
      qed
    next
      case (VInterface io)
      show ?thesis
      proof (cases io)
        case None
        with VInterface show ?thesis by simp
      next
        case (Some ov)
        obtain t' x' where ov: "ov = (t', x')" by (cases ov)
        note v = VInterface [unfolded Some ov]
        have "terminates (\<lambda>n. copyRecursive n U (t', x') (zero_like x') s)"
          by (rule IH) (use inv cl v in simp_all)
        then have "terminates (\<lambda>n. thenDo (copyRecursive n U (t', x') (zero_like x') s)
            (\<lambda>(copyValue, st1). Returns (VInterface (Some (fst (t', x'), copyValue)), st1)))"
          by (rule terminates_thenDo_const) (simp split: prod.splits)
        with v show ?thesis by simp
      qed
    next
      case v: (VStruct vs)
      show ?thesis
      proof (cases "t = TStruct ''time.Time''")
        case True
        with v show ?thesis by simp
      next
        case notime: False
        show ?thesis
        proof (cases "hasDeepCopyMethod U t")
          case (Some dc)
          with v notime show ?thesis by (simp split: prod.splits)
        next
          case nodc: None
          show ?thesis
          proof (cases "\<exists>fs ds. structFields U t = Some fs \<and> cpy = VStruct ds
                          \<and> length vs = length fs \<and> length ds = length fs")
            case False
            with v notime nodc show ?thesis
              by (cases "structFields U t"; cases cpy; cases "length vs = length (the (structFields U t))"; simp)
          next
            case True
            then obtain fs ds where f: "structFields U t = Some fs" "cpy = VStruct ds"
              "length vs = length fs" "length ds = length fs" by blast
            have "terminates (\<lambda>n. copyFields n U fs vs ds s)"
            proof (rule copyFields_terminates [where src = src and K = "unvisited src s"])
              fix x' tx cpy' s'
              assume "x' \<in> set vs" "source_intact src s'" "unvisited src s' \<le> unvisited src s"
              then show "terminates (\<lambda>n. copyRecursive n U (tx, x') cpy' s')"
                using cl v rankOf_member [of x' vs rk] size_member [of x' vs]
                by (intro IH) (auto simp: list_all_iff)
            qed (use inv in simp_all)
            then have "terminates (\<lambda>n. thenDo (copyFields n U fs vs ds s)
                         (\<lambda>(cs, st1). Returns (VStruct cs, st1)))"
              by (rule terminates_thenDo_const) (simp split: prod.splits)
            with v notime nodc f show ?thesis by simp
          qed
        qed
      qed
    next
      case (VSlice so)
      show ?thesis
      proof (cases so)
        case None
        with VSlice show ?thesis by simp
      next
        case (Some tr)
        obtain a len cap where tr: "tr = (a, len, cap)" by (cases tr)
        note v = VSlice [unfolded Some tr]
        from cl v have a: "a < length src" by simp
        show ?thesis
        proof (cases "\<exists>et es. elemType t = Some et \<and> backingAt (mem s) a = Some es \<and> len \<le> length es")
          case False
          with v show ?thesis
            by (cases "elemType t"; cases "backingAt (mem s) a"; simp)
        next
          case True
          then obtain et es where f: "elemType t = Some et" "backingAt (mem s) a = Some es"
            "len \<le> length es" by blast
          have "terminates (\<lambda>n. copyElems n U et (take len es)
                         (s\<lparr>mem := mem s @ [Backing (map zero_like (take len es))]\<rparr>))"
          proof (rule copyElems_terminates [where src = src and K = "unvisited src s"])
            fix x' cpy' s'
            assume x': "x' \<in> set (take len es)" and s': "source_intact src s'"
              "unvisited src s' \<le> unvisited src s"
            from x' have "x' \<in> set es" by (rule in_set_takeD)
            from source_backing [OF wr inv a f(2) this] s' v
            show "terminates (\<lambda>n. copyRecursive n U (et, x') cpy' s')"
              by (intro IH) auto
          qed (use inv in simp_all)
          then have "terminates (\<lambda>n. thenDo (copyElems n U et (take len es)
                         (s\<lparr>mem := mem s @ [Backing (map zero_like (take len es))]\<rparr>))
                 (\<lambda>(cs, st2). Returns (VSlice (Some (length (mem s), len, cap)),
                                       st2\<lparr>mem := (mem st2)[length (mem s) := Backing cs]\<rparr>)))"
            by (rule terminates_thenDo_const) (simp split: prod.splits)
          with v f show ?thesis by simp
        qed
      qed
    next
      case (VMap mo)
      show ?thesis
      proof (cases mo)
        case None
        with VMap show ?thesis by simp
      next
        case (Some a)
        note v = VMap [unfolded Some]
        from cl v have a: "a < length src" by simp
        show ?thesis
        proof (cases "\<exists>kt et es. keyType t = Some kt \<and> elemType t = Some et \<and> mapAt (mem s) a = Some es")
          case False
          with v show ?thesis
            by (cases "keyType t"; cases "elemType t"; cases "mapAt (mem s) a"; simp)
        next
          case True
          then obtain kt et es where f: "keyType t = Some kt" "elemType t = Some et"
            "mapAt (mem s) a = Some es" by blast
          have "terminates (\<lambda>n. copyEntries n U kt et es (s\<lparr>mem := mem s @ [MapObj []]\<rparr>))"
          proof (rule copyEntries_terminates [where src = src and K = "unvisited src s"])
            fix x' tx cpy' s'
            assume x': "x' \<in> fst ` set es \<union> snd ` set es" and s': "source_intact src s'"
              "unvisited src s' \<le> unvisited src s"
            from x' obtain kv where kv: "kv \<in> set es" "x' = fst kv \<or> x' = snd kv" by auto
            from source_map [OF wr inv a f(3) kv(1)] kv(2) s' v
            show "terminates (\<lambda>n. copyRecursive n U (tx, x') cpy' s')"
              by (intro IH) auto
          qed (use inv in simp_all)
          then have "terminates (\<lambda>n. thenDo (copyEntries n U kt et es (s\<lparr>mem := mem s @ [MapObj []]\<rparr>))
               (\<lambda>(kvs, st2). Returns (VMap (Some (length (mem s))),
                                      st2\<lparr>mem := (mem st2)[length (mem s) := MapObj (setMapIndexes kvs)]\<rparr>)))"
            by (rule terminates_thenDo_const) (simp split: prod.splits)
          with v f show ?thesis by simp
        qed
      qed
    next
      case v: (VArray vs)
      show ?thesis
      proof (cases "\<exists>et ds. elemType t = Some et \<and> cpy = VArray ds \<and> length ds = length vs")
        case False
        with v show ?thesis
          by (cases "elemType t"; cases cpy; simp)
      next
        case True
        then obtain et ds where f: "elemType t = Some et" "cpy = VArray ds" "length ds = length vs"
          by blast
        have "terminates (\<lambda>n. copyArray n U et vs ds s)"
        proof (rule copyArray_terminates [where src = src and K = "unvisited src s"])
          fix x' cpy' s'
          assume "x' \<in> set vs" "source_intact src s'" "unvisited src s' \<le> unvisited src s"
          then show "terminates (\<lambda>n. copyRecursive n U (et, x') cpy' s')"
            using cl v rankOf_member [of x' vs rk] size_member [of x' vs]
            by (intro IH) (auto simp: list_all_iff)
        qed (use inv in simp_all)
        then have "terminates (\<lambda>n. thenDo (copyArray n U et vs ds s) (\<lambda>(cs, st1). Returns (VArray cs, st1)))"
          by (rule terminates_thenDo_const) (simp split: prod.splits)
        with v f show ?thesis by simp
      qed
    qed
    then show "terminates (\<lambda>n. copyRecursive n U (t, fst x) cpy (snd x))"
      unfolding x fst_conv snd_conv by (rule terminates_Suc)
  qed
  qed
qed

lemma closed_fields:
  assumes IH: "\<And>t v cpy st r st'. copyRecursive n U (t, v) cpy st = Returns (r, st')
                 \<Longrightarrow> source_intact src st \<Longrightarrow> closedVal (length src) v
                 \<Longrightarrow> dom (visited st') \<subseteq> dom (visited st) \<union> {..<length src}"
  shows "copyFields n U fs vs ds st = Returns (cs, st') \<Longrightarrow> source_intact src st
           \<Longrightarrow> list_all (closedVal (length src)) vs
           \<Longrightarrow> dom (visited st') \<subseteq> dom (visited st) \<union> {..<length src}"
proof (induction fs arbitrary: vs ds st cs)
  case Nil
  then show ?case by simp
next
  case (Cons field fs)
  show ?case
  proof (cases vs)
    case Nil
    with Cons.prems show ?thesis by simp
  next
    case vs: (Cons x vs')
    show ?thesis
    proof (cases ds)
      case Nil
      with Cons.prems vs show ?thesis by simp
    next
      case ds: (Cons d ds')
      show ?thesis
      proof (cases "PkgPath field \<noteq> []")
        case True
        with Cons.prems(1) obtain cs' where
          run: "copyFields n U fs vs' ds' st = Returns (cs', st')"
          unfolding vs ds by (auto simp: thenDo_Returns_iff)
        from Cons.IH [OF run Cons.prems(2)] Cons.prems(3) show ?thesis
          by (simp add: vs)
      next
        case False
        with Cons.prems(1) obtain c st1 cs' where
          one: "copyRecursive n U (Type field, x) d st = Returns (c, st1)"
          and run: "copyFields n U fs vs' ds' st1 = Returns (cs', st')"
          unfolding vs ds by (auto simp: thenDo_Returns_iff)
        have s1: "source_intact src st1"
          using copyRecursive_extends [OF one] Cons.prems(2) by (rule source_intact_extends)
        have "dom (visited st1) \<subseteq> dom (visited st) \<union> {..<length src}"
          "dom (visited st') \<subseteq> dom (visited st1) \<union> {..<length src}"
          using IH [OF one Cons.prems(2)] Cons.IH [OF run s1] Cons.prems(3) by (simp_all add: vs)
        then show ?thesis by blast
      qed
    qed
  qed
qed

lemma closed_array:
  assumes IH: "\<And>t v cpy st r st'. copyRecursive n U (t, v) cpy st = Returns (r, st')
                 \<Longrightarrow> source_intact src st \<Longrightarrow> closedVal (length src) v
                 \<Longrightarrow> dom (visited st') \<subseteq> dom (visited st) \<union> {..<length src}"
  shows "copyArray n U et vs ds st = Returns (cs, st') \<Longrightarrow> source_intact src st
           \<Longrightarrow> list_all (closedVal (length src)) vs
           \<Longrightarrow> dom (visited st') \<subseteq> dom (visited st) \<union> {..<length src}"
proof (induction vs arbitrary: ds st cs)
  case Nil
  then show ?case by simp
next
  case (Cons x vs)
  show ?case
  proof (cases ds)
    case Nil
    with Cons.prems show ?thesis by simp
  next
    case ds: (Cons d ds')
    from Cons.prems(1) obtain c st1 cs' where
      one: "copyRecursive n U (et, x) d st = Returns (c, st1)"
      and run: "copyArray n U et vs ds' st1 = Returns (cs', st')"
      unfolding ds by (auto simp: thenDo_Returns_iff)
    have s1: "source_intact src st1"
      using copyRecursive_extends [OF one] Cons.prems(2) by (rule source_intact_extends)
    have "dom (visited st1) \<subseteq> dom (visited st) \<union> {..<length src}"
      "dom (visited st') \<subseteq> dom (visited st1) \<union> {..<length src}"
      using IH [OF one Cons.prems(2)] Cons.IH [OF run s1] Cons.prems(3) by simp_all
    then show ?thesis by blast
  qed
qed

lemma closed_elems:
  assumes IH: "\<And>t v cpy st r st'. copyRecursive n U (t, v) cpy st = Returns (r, st')
                 \<Longrightarrow> source_intact src st \<Longrightarrow> closedVal (length src) v
                 \<Longrightarrow> dom (visited st') \<subseteq> dom (visited st) \<union> {..<length src}"
  shows "copyElems n U et xs st = Returns (cs, st') \<Longrightarrow> source_intact src st
           \<Longrightarrow> list_all (closedVal (length src)) xs
           \<Longrightarrow> dom (visited st') \<subseteq> dom (visited st) \<union> {..<length src}"
proof (induction xs arbitrary: st cs)
  case Nil
  then show ?case by simp
next
  case (Cons x xs)
  from Cons.prems(1) obtain c st1 cs' where
    one: "copyRecursive n U (et, x) (zero_like x) st = Returns (c, st1)"
    and run: "copyElems n U et xs st1 = Returns (cs', st')"
    by (auto simp: thenDo_Returns_iff)
  have s1: "source_intact src st1"
    using copyRecursive_extends [OF one] Cons.prems(2) by (rule source_intact_extends)
  have "dom (visited st1) \<subseteq> dom (visited st) \<union> {..<length src}"
    "dom (visited st') \<subseteq> dom (visited st1) \<union> {..<length src}"
    using IH [OF one Cons.prems(2)] Cons.IH [OF run s1] Cons.prems(3) by simp_all
  then show ?case by blast
qed

lemma closed_entries:
  assumes IH: "\<And>t v cpy st r st'. copyRecursive n U (t, v) cpy st = Returns (r, st')
                 \<Longrightarrow> source_intact src st \<Longrightarrow> closedVal (length src) v
                 \<Longrightarrow> dom (visited st') \<subseteq> dom (visited st) \<union> {..<length src}"
  shows "copyEntries n U kt et es st = Returns (kvs, st') \<Longrightarrow> source_intact src st
           \<Longrightarrow> list_all (\<lambda>kv. closedVal (length src) (fst kv) \<and> closedVal (length src) (snd kv)) es
           \<Longrightarrow> dom (visited st') \<subseteq> dom (visited st) \<union> {..<length src}"
proof (induction es arbitrary: st kvs)
  case Nil
  then show ?case by simp
next
  case (Cons e es)
  from Cons.prems(1) obtain c st1 k st2 kvs' where
    one: "copyRecursive n U (et, snd e) (zero_like (snd e)) st = Returns (c, st1)"
    and two: "copyRecursive n U (kt, fst e) (zero_like (fst e)) st1 = Returns (k, st2)"
    and run: "copyEntries n U kt et es st2 = Returns (kvs', st')"
    by (auto simp: thenDo_Returns_iff split: if_splits)
  have s1: "source_intact src st1"
    using copyRecursive_extends [OF one] Cons.prems(2) by (rule source_intact_extends)
  have s2: "source_intact src st2"
    using copyRecursive_extends [OF two] s1 by (rule source_intact_extends)
  have "dom (visited st1) \<subseteq> dom (visited st) \<union> {..<length src}"
    "dom (visited st2) \<subseteq> dom (visited st1) \<union> {..<length src}"
    "dom (visited st') \<subseteq> dom (visited st2) \<union> {..<length src}"
    using IH [OF one Cons.prems(2)] IH [OF two s1] Cons.IH [OF run s2] Cons.prems(3) by simp_all
  then show ?case by blast
qed

lemma copyRecursive_table_keys:
  assumes wr: "cyclesThroughPointers rk src"
  shows "copyRecursive n U (t, v) cpy st = Returns (r, st') \<Longrightarrow> source_intact src st
           \<Longrightarrow> closedVal (length src) v
           \<Longrightarrow> dom (visited st') \<subseteq> dom (visited st) \<union> {..<length src}"
proof (induction n arbitrary: t v cpy st r st')
  case 0
  then show ?case by simp
next
  case (Suc n)
  note run = Suc.prems(1) and inv = Suc.prems(2) and cl = Suc.prems(3)
  show ?case
  proof (cases v)
    case (VPtr po)
    show ?thesis
    proof (cases po)
      case None
      with run VPtr show ?thesis by auto
    next
      case (Some p)
      from cl VPtr Some have p: "p < length src" by simp
      from run [unfolded VPtr Some] show ?thesis
      proof (cases rule: copyRecursive_ptrE)
        case (Seen seen)
        then show ?thesis by simp
      next
        case (Override dc result new)
        with p show ?thesis by auto
      next
        case (OverrideWrap dc result new)
        with p show ?thesis by (auto simp: wrapResult_Returns)
      next
        case (ElemOverride et ov dc result new)
        with p show ?thesis by (auto simp: wrapResult_Returns)
      next
        case (Default et ov c st2)
        have "dom (visited st2) \<subseteq> dom (visited (st\<lparr>mem := mem st @ [Cell (zero_like ov)],
                visited := (visited st)(p \<mapsto> (t, VPtr (Some (length (mem st)))))\<rparr>)) \<union> {..<length src}"
          using inv by (intro Suc.IH [OF Default(6)] source_cell [OF wr inv p Default(4)]) simp
        with p Default(8) show ?thesis by auto
      qed
    qed
  next
    case (VSlice so)
    show ?thesis
    proof (cases so)
      case None
      with run VSlice show ?thesis by auto
    next
      case (Some x)
      obtain a len' cap where x: "x = (a, len', cap)" by (cases x)
      from cl VSlice Some x have a: "a < length src" by simp
      from run [unfolded VSlice Some x] show ?thesis
      proof (cases rule: copyRecursive_sliceE)
        case (1 et es cs st2)
        have "list_all (closedVal (length src)) (take len' es)"
          using source_backing [OF wr inv a 1(2)] by (auto simp: list_all_iff dest: in_set_takeD)
        from closed_elems [of n U src, OF Suc.IH 1(4) _ this] inv 1(6) show ?thesis
          by simp
      qed
    qed
  next
    case (VMap mo)
    show ?thesis
    proof (cases mo)
      case None
      with run VMap show ?thesis by auto
    next
      case (Some a)
      from cl VMap Some have a: "a < length src" by simp
      from run [unfolded VMap Some] show ?thesis
      proof (cases rule: copyRecursive_mapE)
        case (1 kt et entries kvs st2)
        have "list_all (\<lambda>kv. closedVal (length src) (fst kv) \<and> closedVal (length src) (snd kv)) entries"
          using source_map [OF wr inv a 1(3)] by (auto simp: list_all_iff)
        from closed_entries [of n U src, OF Suc.IH 1(4) _ this] inv 1(6) show ?thesis
          by simp
      qed
    qed
  next
    case (VInterface io)
    show ?thesis
    proof (cases io)
      case None
      with run VInterface show ?thesis by auto
    next
      case (Some ov)
      obtain t' x where ov: "ov = (t', x)" by (cases ov)
      from run [unfolded VInterface Some ov] show ?thesis
      proof (cases rule: copyRecursive_interfaceE)
        case (1 c)
        from Suc.IH [OF 1(1) inv] cl VInterface Some ov show ?thesis by simp
      qed
    qed
  next
    case (VStruct vs)
    from run [unfolded VStruct] show ?thesis
    proof (cases rule: copyRecursive_structE)
      case Time
      then show ?thesis by simp
    next
      case (Override dc result new)
      then show ?thesis by simp
    next
      case (Fields fs ds cs)
      from closed_fields [of n U src, OF Suc.IH Fields(7) inv] cl VStruct show ?thesis by simp
    qed
  next
    case (VArray vs)
    from run [unfolded VArray] show ?thesis
    proof (cases rule: copyRecursive_arrayE)
      case (1 et ds cs)
      from closed_array [of n U src, OF Suc.IH 1(4) inv] cl VArray show ?thesis by simp
    qed
  qed (use run in auto)
qed

text \<open>
  C9, as far as it holds. On an input that refers only to its own objects and in which
  every cycle passes through a pointer, \<open>copyRecursive\<close> terminates whatever the
  table holds at the start: from some depth bound on, the outcome is the same value or
  the same panic. Each first visit of a pointer takes one object of the input out of
  \<open>unvisited\<close>, and between two such visits the traversal descends in rank or in size.
  Every address that the copy enters in the table is that of an object of the input: the
  table, looked up before a pointer is followed, grows by at most one entry for each of
  them.
\<close>

theorem copy_terminates_when_cycles_pass_through_pointers:
  assumes "cyclesThroughPointers rk src" and "closedVal (length src) v"
  shows "terminates (\<lambda>n. copyRecursive n U (t, v) cpy \<lparr>mem = src, visited = tbl\<rparr>)
       \<and> (\<forall>n r st'. copyRecursive n U (t, v) cpy \<lparr>mem = src, visited = tbl\<rparr> = Returns (r, st')
             \<longrightarrow> dom (visited st') \<subseteq> dom tbl \<union> {..<length src})"
proof (intro conjI allI impI)
  have intact: "source_intact src \<lparr>mem = src, visited = tbl\<rparr>"
    by (simp add: source_intact_def)
  with copyRecursive_terminates_aux [OF assms(1), of "(v, \<lparr>mem = src, visited = tbl\<rparr>)" U] assms(2)
  show "terminates (\<lambda>n. copyRecursive n U (t, v) cpy \<lparr>mem = src, visited = tbl\<rparr>)"
    by simp
  fix n r st'
  assume "copyRecursive n U (t, v) cpy \<lparr>mem = src, visited = tbl\<rparr> = Returns (r, st')"
  from copyRecursive_table_keys [OF assms(1) this intact assms(2)]
  show "dom (visited st') \<subseteq> dom tbl \<union> {..<length src}"
    by simp
qed

text \<open>
  The tree that is its own child meets both conditions with every slice at rank 0, and its
  copy terminates.
\<close>

theorem copy_terminates_when_cycles_pass_through_pointers_witness:
  "cyclesThroughPointers (\<lambda>a. 0) treeLoop \<and> closedVal (length treeLoop) (VPtr (Some 0))
   \<and> terminates (\<lambda>n. copyRecursive n treeUniverse (TPtr (TStruct ''Tree''), VPtr (Some 0)) (VPtr None)
                       \<lparr>mem = treeLoop, visited = Map.empty\<rparr>)"
  using copy_terminates_when_cycles_pass_through_pointers
          [of "\<lambda>a. 0" treeLoop "VPtr (Some 0)" treeUniverse "TPtr (TStruct ''Tree'')" "VPtr None" Map.empty]
  by (simp add: cyclesThroughPointers_def rankedObj_def treeLoop_def upt_rec)
section \<open>Independence of the copy: proofs\<close>

lemma zero_like_fresh [simp]: "freshVal N (zero_like x)"
  by (induction x) (auto simp: list_all_iff)

lemma zero_like_plain [simp]: "plainVal (zero_like x)"
  by (induction x) (auto simp: list_all_iff)

lemma noTime_underlying: "noTime t \<Longrightarrow> noTime (underlying t)"
  by (induction t) auto

lemma noTime_elemType: "noTime t \<Longrightarrow> elemType t = Some et \<Longrightarrow> noTime et"
  using noTime_underlying [of t]
  by (auto simp: elemType_def split: rtype.splits)

lemma noTime_keyType: "noTime t \<Longrightarrow> keyType t = Some kt \<Longrightarrow> noTime kt"
  using noTime_underlying [of t]
  by (auto simp: keyType_def split: rtype.splits)

lemma plainDecls_structFields:
  "plainDecls U \<Longrightarrow> structFields U t = Some fs \<Longrightarrow> list_all (\<lambda>f. noTime (Type f)) fs"
  by (auto simp: plainDecls_def structFields_def declaredFields_def list_all_iff
           split: rtype.splits option.splits dest!: map_of_SomeD)

lemma copy_inv_alloc:
  "copy_inv N st \<Longrightarrow> freshObj N ob \<Longrightarrow> plainObj ob \<Longrightarrow> copy_inv N (st\<lparr>mem := mem st @ [ob]\<rparr>)"
  by (auto simp: copy_inv_def nth_append)

lemma copy_inv_alloc_visited:
  "copy_inv N st \<Longrightarrow> freshObj N ob \<Longrightarrow> plainObj ob \<Longrightarrow> freshVal N x \<Longrightarrow> plainVal x
     \<Longrightarrow> copy_inv N (st\<lparr>mem := mem st @ [ob], visited := (visited st)(p \<mapsto> (t, x))\<rparr>)"
  by (auto simp: copy_inv_def nth_append)

lemma copy_inv_update:
  "copy_inv N st \<Longrightarrow> N \<le> k \<Longrightarrow> freshObj N ob \<Longrightarrow> plainObj ob
     \<Longrightarrow> copy_inv N (st\<lparr>mem := (mem st)[k := ob]\<rparr>)"
proof -
  assume inv: "copy_inv N st" and k: "N \<le> k" and ob: "freshObj N ob" "plainObj ob"
  have "plainObj ((mem st)[k := ob] ! a) \<and> (N \<le> a \<longrightarrow> freshObj N ((mem st)[k := ob] ! a))"
    if "a < length (mem st)" for a
    using that inv ob by (cases "a = k") (simp_all add: copy_inv_def)
  with inv show ?thesis
    by (simp add: copy_inv_def)
qed

lemma copy_inv_cell: "copy_inv N st \<Longrightarrow> cellAt (mem st) p = Some ov \<Longrightarrow> plainVal ov"
  by (auto simp: copy_inv_def cellAt_def plainObj_def split: if_splits obj.splits)

lemma copy_inv_backing: "copy_inv N st \<Longrightarrow> backingAt (mem st) a = Some es \<Longrightarrow> list_all plainVal es"
  by (auto simp: copy_inv_def backingAt_def plainObj_def split: if_splits obj.splits)

lemma copy_inv_map:
  "copy_inv N st \<Longrightarrow> mapAt (mem st) a = Some es
     \<Longrightarrow> list_all (\<lambda>kv. plainVal (fst kv) \<and> plainVal (snd kv)) es"
  by (auto simp: copy_inv_def mapAt_def plainObj_def split: if_splits obj.splits)

lemma copy_inv_visited:
  "copy_inv N st \<Longrightarrow> visited st p = Some x \<Longrightarrow> freshVal N (snd x) \<and> plainVal (snd x)"
  by (cases x) (auto simp: copy_inv_def)

lemma copy_inv_length: "copy_inv N st \<Longrightarrow> N \<le> length (mem st)"
  by (simp add: copy_inv_def)

lemma update_entries: "set (AList.update k v m) \<subseteq> insert (k, v) (set m)"
  by (induction m) auto

lemma setMapIndexes_entries_aux: "set (foldl (\<lambda>m kv. AList.update (fst kv) (snd kv) m) acc kvs) \<subseteq> set acc \<union> set kvs"
proof (induction kvs arbitrary: acc)
  case Nil
  show ?case by simp
next
  case (Cons kv kvs)
  from Cons.IH [of "AList.update (fst kv) (snd kv) acc"] update_entries [of "fst kv" "snd kv" acc]
  show ?case by auto
qed

lemma setMapIndexes_all: "list_all P kvs \<Longrightarrow> list_all P (setMapIndexes kvs)"
  using setMapIndexes_entries_aux [of "[]" kvs]
  by (auto simp: setMapIndexes_def list_all_iff)

lemma copyFields_fresh:
  assumes IH: "\<And>t v cpy st r st'. copyRecursive n U (t, v) cpy st = Returns (r, st') \<Longrightarrow> copy_inv N st
                 \<Longrightarrow> freshVal N cpy \<Longrightarrow> plainVal cpy \<Longrightarrow> noTime t \<Longrightarrow> plainVal v
                 \<Longrightarrow> copy_inv N st' \<and> freshVal N r \<and> plainVal r"
  shows "copyFields n U fs vs ds st = Returns (cs, st') \<Longrightarrow> copy_inv N st
           \<Longrightarrow> list_all (freshVal N) ds \<Longrightarrow> list_all plainVal ds
           \<Longrightarrow> list_all (\<lambda>f. noTime (Type f)) fs \<Longrightarrow> list_all plainVal vs
           \<Longrightarrow> copy_inv N st' \<and> list_all (freshVal N) cs \<and> list_all plainVal cs"
proof (induction fs arbitrary: vs ds st cs)
  case Nil
  then show ?case by simp
next
  case (Cons field fs)
  show ?case
  proof (cases vs)
    case Nil
    with Cons.prems show ?thesis by simp
  next
    case vs: (Cons x vs')
    show ?thesis
    proof (cases ds)
      case Nil
      with Cons.prems vs show ?thesis by simp
    next
      case ds: (Cons d ds')
      show ?thesis
      proof (cases "PkgPath field \<noteq> []")
        case True
        with Cons.prems(1) obtain cs' where
          run: "copyFields n U fs vs' ds' st = Returns (cs', st')" and cs: "cs = d # cs'"
          unfolding vs ds by (auto simp: thenDo_Returns_iff)
        from Cons.IH [OF run Cons.prems(2)] Cons.prems(3-6) cs show ?thesis
          by (simp add: vs ds)
      next
        case False
        with Cons.prems(1) obtain c st1 cs' where
          one: "copyRecursive n U (Type field, x) d st = Returns (c, st1)"
          and run: "copyFields n U fs vs' ds' st1 = Returns (cs', st')" and cs: "cs = c # cs'"
          unfolding vs ds by (auto simp: thenDo_Returns_iff)
        from IH [OF one Cons.prems(2)] Cons.prems(3-6)
        have c: "copy_inv N st1" "freshVal N c" "plainVal c"
          by (simp_all add: vs ds)
        from Cons.IH [OF run c(1)] Cons.prems(3-6) c cs show ?thesis
          by (simp add: vs ds)
      qed
    qed
  qed
qed

lemma copyArray_fresh:
  assumes IH: "\<And>t v cpy st r st'. copyRecursive n U (t, v) cpy st = Returns (r, st') \<Longrightarrow> copy_inv N st
                 \<Longrightarrow> freshVal N cpy \<Longrightarrow> plainVal cpy \<Longrightarrow> noTime t \<Longrightarrow> plainVal v
                 \<Longrightarrow> copy_inv N st' \<and> freshVal N r \<and> plainVal r"
  shows "copyArray n U et vs ds st = Returns (cs, st') \<Longrightarrow> copy_inv N st
           \<Longrightarrow> list_all (freshVal N) ds \<Longrightarrow> list_all plainVal ds
           \<Longrightarrow> noTime et \<Longrightarrow> list_all plainVal vs
           \<Longrightarrow> copy_inv N st' \<and> list_all (freshVal N) cs \<and> list_all plainVal cs"
proof (induction vs arbitrary: ds st cs)
  case Nil
  then show ?case by simp
next
  case (Cons x vs)
  show ?case
  proof (cases ds)
    case Nil
    with Cons.prems show ?thesis by simp
  next
    case ds: (Cons d ds')
    from Cons.prems(1) obtain c st1 cs' where
      one: "copyRecursive n U (et, x) d st = Returns (c, st1)"
      and run: "copyArray n U et vs ds' st1 = Returns (cs', st')" and cs: "cs = c # cs'"
      unfolding ds by (auto simp: thenDo_Returns_iff)
    from IH [OF one Cons.prems(2)] Cons.prems(3-6)
    have c: "copy_inv N st1" "freshVal N c" "plainVal c"
      by (simp_all add: ds)
    from Cons.IH [OF run c(1)] Cons.prems(3-6) c cs show ?thesis
      by (simp add: ds)
  qed
qed

lemma copyElems_fresh:
  assumes IH: "\<And>t v cpy st r st'. copyRecursive n U (t, v) cpy st = Returns (r, st') \<Longrightarrow> copy_inv N st
                 \<Longrightarrow> freshVal N cpy \<Longrightarrow> plainVal cpy \<Longrightarrow> noTime t \<Longrightarrow> plainVal v
                 \<Longrightarrow> copy_inv N st' \<and> freshVal N r \<and> plainVal r"
  shows "copyElems n U et xs st = Returns (cs, st') \<Longrightarrow> copy_inv N st
           \<Longrightarrow> noTime et \<Longrightarrow> list_all plainVal xs
           \<Longrightarrow> copy_inv N st' \<and> list_all (freshVal N) cs \<and> list_all plainVal cs"
proof (induction xs arbitrary: st cs)
  case Nil
  then show ?case by simp
next
  case (Cons x xs)
  from Cons.prems(1) obtain c st1 cs' where
    one: "copyRecursive n U (et, x) (zero_like x) st = Returns (c, st1)"
    and run: "copyElems n U et xs st1 = Returns (cs', st')" and cs: "cs = c # cs'"
    by (auto simp: thenDo_Returns_iff)
  from IH [OF one Cons.prems(2)] Cons.prems(3,4)
  have c: "copy_inv N st1" "freshVal N c" "plainVal c"
    by simp_all
  from Cons.IH [OF run c(1)] Cons.prems(3,4) c cs show ?case
    by simp
qed

lemma copyEntries_fresh:
  assumes IH: "\<And>t v cpy st r st'. copyRecursive n U (t, v) cpy st = Returns (r, st') \<Longrightarrow> copy_inv N st
                 \<Longrightarrow> freshVal N cpy \<Longrightarrow> plainVal cpy \<Longrightarrow> noTime t \<Longrightarrow> plainVal v
                 \<Longrightarrow> copy_inv N st' \<and> freshVal N r \<and> plainVal r"
  shows "copyEntries n U kt et es st = Returns (kvs, st') \<Longrightarrow> copy_inv N st
           \<Longrightarrow> noTime kt \<Longrightarrow> noTime et
           \<Longrightarrow> list_all (\<lambda>kv. plainVal (fst kv) \<and> plainVal (snd kv)) es
           \<Longrightarrow> copy_inv N st' \<and> list_all (\<lambda>kv. freshVal N (fst kv) \<and> freshVal N (snd kv)) kvs
               \<and> list_all (\<lambda>kv. plainVal (fst kv) \<and> plainVal (snd kv)) kvs"
proof (induction es arbitrary: st kvs)
  case Nil
  then show ?case by simp
next
  case (Cons e es)
  from Cons.prems(1) obtain c st1 k st2 kvs' where
    one: "copyRecursive n U (et, snd e) (zero_like (snd e)) st = Returns (c, st1)"
    and two: "copyRecursive n U (kt, fst e) (zero_like (fst e)) st1 = Returns (k, st2)"
    and run: "copyEntries n U kt et es st2 = Returns (kvs', st')" and kvs: "kvs = (k, c) # kvs'"
    by (auto simp: thenDo_Returns_iff split: if_splits)
  from IH [OF one Cons.prems(2)] Cons.prems(3-5)
  have c: "copy_inv N st1" "freshVal N c" "plainVal c"
    by simp_all
  from IH [OF two c(1)] Cons.prems(3-5)
  have k: "copy_inv N st2" "freshVal N k" "plainVal k"
    by simp_all
  from Cons.IH [OF run k(1)] Cons.prems(3-5) c k kvs show ?case
    by simp
qed

lemma copyRecursive_fresh:
  assumes nodc: "\<And>t. hasDeepCopyMethod U t = None" and pd: "plainDecls U"
  shows "copyRecursive n U (t, v) cpy st = Returns (r, st') \<Longrightarrow> copy_inv N st
           \<Longrightarrow> freshVal N cpy \<Longrightarrow> plainVal cpy \<Longrightarrow> noTime t \<Longrightarrow> plainVal v
           \<Longrightarrow> copy_inv N st' \<and> freshVal N r \<and> plainVal r"
proof (induction n arbitrary: t v cpy st r st')
  case 0
  then show ?case by simp
next
  case (Suc n)
  note run = Suc.prems(1) and inv = Suc.prems(2) and cpy = Suc.prems(3,4)
    and t = Suc.prems(5) and pv = Suc.prems(6)
  note len = copy_inv_length [OF inv]
  show ?case
  proof (cases v)
    case (VPtr po)
    show ?thesis
    proof (cases po)
      case None
      with run VPtr inv show ?thesis by auto
    next
      case (Some p)
      from run [unfolded VPtr Some] show ?thesis
      proof (cases rule: copyRecursive_ptrE)
        case (Seen seen)
        from Seen(2) have "r = snd seen"
          by (auto simp: setChecked_def split: if_splits)
        with copy_inv_visited [OF inv Seen(1)] inv Seen(3) show ?thesis by simp
      next
        case (Override dc result new)
        with nodc show ?thesis by simp
      next
        case (OverrideWrap dc result new)
        with nodc show ?thesis by simp
      next
        case (ElemOverride et ov dc result new)
        with nodc show ?thesis by simp
      next
        case (Default et ov c st2)
        have "copy_inv N (st\<lparr>mem := mem st @ [Cell (zero_like ov)],
                visited := (visited st)(p \<mapsto> (t, VPtr (Some (length (mem st)))))\<rparr>)"
          using inv len by (intro copy_inv_alloc_visited) (simp_all add: freshObj_def plainObj_def)
        from Suc.IH [OF Default(6) this] noTime_elemType [OF t Default(3)]
          copy_inv_cell [OF inv Default(4)]
        have c: "copy_inv N st2" "freshVal N c" "plainVal c" by simp_all
        have "copy_inv N (st2\<lparr>mem := (mem st2)[length (mem st) := Cell c]\<rparr>)"
          using c len by (intro copy_inv_update) (simp_all add: freshObj_def plainObj_def)
        with Default(7,8) len show ?thesis by simp
      qed
    qed
  next
    case (VSlice so)
    show ?thesis
    proof (cases so)
      case None
      with run VSlice inv show ?thesis by auto
    next
      case (Some x)
      obtain a len' cap where x: "x = (a, len', cap)" by (cases x)
      from run [unfolded VSlice Some x] show ?thesis
      proof (cases rule: copyRecursive_sliceE)
        case (1 et es cs st2)
        have i1: "copy_inv N (st\<lparr>mem := mem st @ [Backing (map zero_like (take len' es))]\<rparr>)"
          using inv by (intro copy_inv_alloc) (simp_all add: freshObj_def plainObj_def list_all_iff)
        have "list_all plainVal (take len' es)"
          using copy_inv_backing [OF inv 1(2)] by (auto simp: list_all_iff dest: in_set_takeD)
        from copyElems_fresh [of n U N, OF Suc.IH 1(4) i1 noTime_elemType [OF t 1(1)] this]
        have c: "copy_inv N st2" "list_all (freshVal N) cs" "list_all plainVal cs"
          by simp_all
        have "copy_inv N (st2\<lparr>mem := (mem st2)[length (mem st) := Backing cs]\<rparr>)"
          using c len by (intro copy_inv_update) (simp_all add: freshObj_def plainObj_def)
        with 1(5,6) len show ?thesis by simp
      qed
    qed
  next
    case (VMap mo)
    show ?thesis
    proof (cases mo)
      case None
      with run VMap inv show ?thesis by auto
    next
      case (Some a)
      from run [unfolded VMap Some] show ?thesis
      proof (cases rule: copyRecursive_mapE)
        case (1 kt et entries kvs st2)
        have i1: "copy_inv N (st\<lparr>mem := mem st @ [MapObj []]\<rparr>)"
          using inv by (intro copy_inv_alloc) (simp_all add: freshObj_def plainObj_def)
        from copyEntries_fresh [of n U N, OF Suc.IH 1(4) i1 noTime_keyType [OF t 1(1)]
            noTime_elemType [OF t 1(2)] copy_inv_map [OF inv 1(3)]]
        have c: "copy_inv N st2" "list_all (\<lambda>kv. freshVal N (fst kv) \<and> freshVal N (snd kv)) kvs"
          "list_all (\<lambda>kv. plainVal (fst kv) \<and> plainVal (snd kv)) kvs"
          by simp_all
        have "copy_inv N (st2\<lparr>mem := (mem st2)[length (mem st) := MapObj (setMapIndexes kvs)]\<rparr>)"
          using c(1) len setMapIndexes_all [OF c(2)] setMapIndexes_all [OF c(3)]
          by (intro copy_inv_update) (simp_all add: freshObj_def plainObj_def)
        with 1(5,6) len show ?thesis by simp
      qed
    qed
  next
    case (VInterface io)
    show ?thesis
    proof (cases io)
      case None
      with run VInterface inv show ?thesis by auto
    next
      case (Some ov)
      obtain t' x where ov: "ov = (t', x)" by (cases ov)
      from run [unfolded VInterface Some ov] show ?thesis
      proof (cases rule: copyRecursive_interfaceE)
        case (1 c)
        from Suc.IH [OF 1(1) [unfolded snd_conv] inv] pv VInterface Some ov 1(2)
        show ?thesis by simp
      qed
    qed
  next
    case (VStruct vs)
    from run [unfolded VStruct] show ?thesis
    proof (cases rule: copyRecursive_structE)
      case Time
      with t show ?thesis by simp
    next
      case (Override dc result new)
      with nodc show ?thesis by simp
    next
      case (Fields fs ds cs)
      from copyFields_fresh [of n U N, OF Suc.IH Fields(7) inv] cpy Fields(4,8)
        plainDecls_structFields [OF pd Fields(3)] pv VStruct
      show ?thesis by simp
    qed
  next
    case (VArray vs)
    from run [unfolded VArray] show ?thesis
    proof (cases rule: copyRecursive_arrayE)
      case (1 et ds cs)
      from copyArray_fresh [of n U N, OF Suc.IH 1(4) inv] cpy 1(2,5)
        noTime_elemType [OF t 1(1)] pv VArray
      show ?thesis by simp
    qed
  qed (use run inv in auto)
qed

lemma copyRecursive_reference_moves:
  assumes "copyRecursive n U (t, v) cpy st = Returns (r, st')" "referenceLike v"
    "\<And>t. hasDeepCopyMethod U t = None" "visited st = Map.empty"
  shows "r \<noteq> v"
proof (cases n)
  case 0
  with assms(1) show ?thesis by simp
next
  case (Suc k)
  show ?thesis
  proof (cases v)
    case (VPtr po)
    with assms(2) obtain p where v: "v = VPtr (Some p)"
      by (cases po) (auto simp: referenceLike_def)
    from assms(1) [unfolded Suc v] show ?thesis
    proof (cases rule: copyRecursive_ptrE)
      case (Default et ov c st2)
      then show ?thesis by (auto simp: v cellAt_def split: if_splits)
    qed (use assms(3,4) in simp_all)
  next
    case (VSlice so)
    with assms(2) obtain a len cap where v: "v = VSlice (Some (a, len, cap))"
      by (cases so) (auto simp: referenceLike_def)
    from assms(1) [unfolded Suc v] show ?thesis
      by (cases rule: copyRecursive_sliceE) (auto simp: v backingAt_def split: if_splits)
  next
    case (VMap mo)
    with assms(2) obtain a where v: "v = VMap (Some a)"
      by (cases mo) (auto simp: referenceLike_def)
    from assms(1) [unfolded Suc v] show ?thesis
      by (cases rule: copyRecursive_mapE) (auto simp: v mapAt_def split: if_splits)
  qed (use assms(2) in \<open>simp_all add: referenceLike_def\<close>)
qed

lemma copy_inv_start:
  "list_all plainObj src \<Longrightarrow> copy_inv (length src) \<lparr>mem = src, visited = Map.empty\<rparr>"
  by (auto simp: copy_inv_def list_all_length)

lemma copy_inv_new:
  assumes "copy_inv N st" "mem st = src @ new" "N = length src"
  shows "list_all (freshObj N) new"
  unfolding list_all_length
proof (intro allI impI)
  fix i assume "i < length new"
  with assms(2,3) have "N + i < length (mem st)" by simp
  with assms(1) have "freshObj N (mem st ! (N + i))"
    unfolding copy_inv_def by (metis le_add1)
  with assms(2,3) show "freshObj N (new ! i)" by simp
qed

lemma vis_ok_start: "vis_ok (modify (length rs) f (register t \<lparr>results = rs, visitedT = Map.empty\<rparr>))"
  by (simp add: vis_ok_def)

lemma inherit_IsOnlyValues [simp]:
  "IsOnlyValues (inheritPtr er r) = IsOnlyValues r"
  "IsOnlyValues (inheritSlice er r) = IsOnlyValues r"
  "IsOnlyValues (inheritMap kr er r) = IsOnlyValues r"
  by (simp_all add: inheritPtr_def inheritSlice_def inheritMap_def)

lemma reference_type_analysis:
  assumes run: "analyzeTypeRecursive n D t \<lparr>results = rs, visitedT = Map.empty\<rparr> = Some (a, st')"
    and ref: "isRefType t"
  shows "a < length (results st') \<and> \<not> IsOnlyValues (results st' ! a)"
proof (cases n)
  case 0
  with run show ?thesis by simp
next
  case (Suc k)
  let ?st = "\<lparr>results = rs, visitedT = Map.empty\<rparr>"
  show ?thesis
  proof (cases "underlying t")
    case (TPtr e)
    let ?s1 = "modify (length rs) (\<lambda>r. r\<lparr>IsOnlyValues := False, ContainsPtr := True\<rparr>) (register t ?st)"
    from run Suc TPtr obtain er st3 where
      inner: "analyzeTypeRecursive k D e ?s1 = Some (er, st3)"
      and a: "a = length rs" and st': "st' = modify (length rs) (inheritPtr (results st3 ! er)) st3"
      by (auto split: option.splits)
    from analyzeTypeRecursive_frame [OF inner vis_ok_start] have fr: "frame ?s1 st3" by simp
    have len: "length rs < length (results st3)"
      using frame_length [OF fr] by simp
    have "results st3 ! length rs = results ?s1 ! length rs"
      using fr by (rule frame_nth) simp
    then have "\<not> IsOnlyValues (results st3 ! length rs)"
      by (simp add: modify_nth nth_append)
    with a st' len show ?thesis
      by (simp add: modify_nth)
  next
    case (TSlice e)
    let ?s1 = "modify (length rs) (\<lambda>r. r\<lparr>IsOnlyValues := False, ContainsSlice := True\<rparr>) (register t ?st)"
    from run Suc TSlice obtain er st3 where
      inner: "analyzeTypeRecursive k D e ?s1 = Some (er, st3)"
      and a: "a = length rs" and st': "st' = modify (length rs) (inheritSlice (results st3 ! er)) st3"
      by (auto split: option.splits)
    from analyzeTypeRecursive_frame [OF inner vis_ok_start] have fr: "frame ?s1 st3" by simp
    have len: "length rs < length (results st3)"
      using frame_length [OF fr] by simp
    have "results st3 ! length rs = results ?s1 ! length rs"
      using fr by (rule frame_nth) simp
    then have "\<not> IsOnlyValues (results st3 ! length rs)"
      by (simp add: modify_nth nth_append)
    with a st' len show ?thesis
      by (simp add: modify_nth)
  next
    case (TMap kt e)
    let ?s1 = "modify (length rs) (\<lambda>r. r\<lparr>IsOnlyValues := False, ContainsMap := True\<rparr>) (register t ?st)"
    from run Suc TMap obtain kr st3 er st4 where
      inner: "analyzeTypeRecursive k D kt ?s1 = Some (kr, st3)"
      and inner2: "analyzeTypeRecursive k D e st3 = Some (er, st4)"
      and a: "a = length rs"
      and st': "st' = modify (length rs) (inheritMap (results st4 ! kr) (results st4 ! er)) st4"
      by (auto split: option.splits)
    from analyzeTypeRecursive_frame [OF inner vis_ok_start] have fr: "frame ?s1 st3" by simp
    then have "vis_ok st3" by (simp add: frame_def)
    from analyzeTypeRecursive_frame [OF inner2 this] have "frame st3 st4" by simp
    with fr have fr4: "frame ?s1 st4" by (rule frame_trans)
    have len: "length rs < length (results st4)"
      using frame_length [OF fr4] by simp
    have "results st4 ! length rs = results ?s1 ! length rs"
      using fr4 by (rule frame_nth) simp
    then have "\<not> IsOnlyValues (results st4 ! length rs)"
      by (simp add: modify_nth nth_append)
    with a st' len show ?thesis
      by (simp add: modify_nth)
  qed (use ref in \<open>simp_all add: isRefType_def\<close>)
qed

lemma reference_type_not_only_values:
  assumes "cacheSound m rs" "isRefType t" "getOrAnalyzeType n U t m rs = Some (a, m', rs')"
    "resultAt rs' a = Some res"
  shows "\<not> IsOnlyValues res"
proof (cases "analysisCache m t")
  case (Some cached)
  with assms show ?thesis
    by (auto simp: getOrAnalyzeType_def cacheSound_def resultAt_def split: if_splits)
next
  case None
  with assms(3) obtain st' where
    run: "analyzeTypeRecursive n (decls U) t \<lparr>results = rs, visitedT = Map.empty\<rparr> = Some (a, st')"
    and rs': "rs' = results st'"
    by (auto simp: getOrAnalyzeType_def split: option.splits)
  from reference_type_analysis [OF run assms(2)] assms(4) rs' show ?thesis
    by (auto simp: resultAt_def split: if_splits)
qed

text \<open>
  What \<open>CopyValue\<close> shares with its source. In a program without \<open>DeepCopy\<close> methods and without
  \<open>time.Time\<close>, a call of \<open>CopyValue\<close> that returns either took the shortcut, the
  analysis of the type saying that it holds values only, and returned the source itself; or
  it left every object of the source as it was and allocated new objects after them, and
  the result and the new objects hold, channels, functions and unsafe pointers apart, only
  addresses of new objects. Then a pointer, slice or map that is not nil is copied to a
  different address. With a sound cache the shortcut is not taken for a pointer, slice or
  map type.
\<close>

lemma CopyValue_allocates_what_it_returns:
  assumes nodc: "\<forall>t. hasDeepCopyMethod U t = None"
    and pd: "plainDecls U" and t: "noTime t" and v: "plainVal v" and src: "list_all plainObj src"
    and run: "CopyValue n U (Some (t, v)) (m, rs, src) = Returns (out, m', rs', mm')"
  shows "(\<exists>a res. getOrAnalyzeType n U t m rs = Some (a, m', rs') \<and> resultAt rs' a = Some res
            \<and> IsOnlyValues res \<and> out = Some (t, v) \<and> mm' = src
            \<and> (cacheSound m rs \<longrightarrow> \<not> isRefType t))
       \<or> (\<exists>r new. out = Some (t, r) \<and> mm' = src @ new
            \<and> list_all (freshObj (length src)) new \<and> freshVal (length src) r
            \<and> (referenceLike v \<longrightarrow> r \<noteq> v))"
proof -
  from run obtain a res where an: "getOrAnalyzeType n U t m rs = Some (a, m', rs')"
    and res: "resultAt rs' a = Some res"
    by (auto simp: CopyValue_def nodc thenDo_Returns_iff split: option.splits if_splits)
  show ?thesis
  proof (cases "IsOnlyValues res")
    case True
    with run an res have "out = Some (t, v)" "mm' = src"
      by (simp_all add: CopyValue_def)
    moreover have "cacheSound m rs \<longrightarrow> \<not> isRefType t"
      using reference_type_not_only_values [OF _ _ an res] True by blast
    ultimately show ?thesis
      using an res True by blast
  next
    case False
    with run an res nodc obtain r st' where
      cp: "copyRecursive n U (t, v) (zero_like v) \<lparr>mem = src, visited = Map.empty\<rparr> = Returns (r, st')"
      and out: "out = Some (t, r)" and mm: "mm' = mem st'"
      by (auto simp: CopyValue_def thenDo_Returns_iff)
    from copyRecursive_extends [OF cp] obtain new where new: "mem st' = src @ new"
      by (auto simp: extends_def)
    from nodc have nodc': "\<And>t. hasDeepCopyMethod U t = None" by simp
    from copyRecursive_fresh [OF nodc' pd cp copy_inv_start [OF src] _ _ t v]
    have inv: "copy_inv (length src) st'" and fr: "freshVal (length src) r"
      by simp_all
    have moves: "referenceLike v \<longrightarrow> r \<noteq> v"
      using copyRecursive_reference_moves [OF cp _ nodc'] by simp
    from out mm new copy_inv_new [OF inv new refl] fr moves show ?thesis
      by (intro disjI2 exI [of _ r] exI [of _ new] conjI) simp_all
  qed
qed

text \<open>
  \<open>n := 1; p := &n\<close>, the cell of \<open>n\<close> at address 0.
\<close>

lemma CopyValue_of_pointer:
  "\<exists>m' rs'. CopyValue 5 (plainUniverse []) (Some (TPtr (TBasic IntK), VPtr (Some 0)))
       (\<lparr>analysisCache = Map.empty\<rparr>, [], [Cell (VScalar (SInt 1))])
     = Returns (Some (TPtr (TBasic IntK), VPtr (Some 1)), m', rs',
                [Cell (VScalar (SInt 1)), Cell (VScalar (SInt 1))])"
  by (simp add: facade_defs analysis_defs copy_defs plainUniverse_def eval_nat_numeral)

lemma Copy_of_pointer:
  "\<exists>w'. Copy 5 (plainUniverse []) (TPtr (TBasic IntK)) (VPtr (Some 0))
               (emptyWorld\<lparr>memory := [Cell (VScalar (SInt 1))]\<rparr>)
            = Returns (VPtr (Some 1), w')
         \<and> memory w' = [Cell (VScalar (SInt 1)), Cell (VScalar (SInt 1))]"
  by (simp add: facade_defs analysis_defs copy_defs plainUniverse_def emptyWorld_def eval_nat_numeral)

lemma Copy_any_of_pointer:
  "Copy 5 (plainUniverse []) (TInterface ''interface {}'')
         (VInterface (Some (TPtr (TBasic IntK), VPtr (Some 0))))
         (emptyWorld\<lparr>memory := [Cell (VScalar (SInt 1))]\<rparr>)
       = Returns (VInterface (Some (TPtr (TBasic IntK), VPtr (Some 0))),
                  emptyWorld\<lparr>memory := [Cell (VScalar (SInt 1))], analysisResults := [nilResult]\<rparr>)"
  by (simp add: facade_defs copy_defs plainUniverse_def emptyWorld_def nilResult_def newResult_def)

text \<open>
  C1 fails for \<open>Copy\<close> at an interface type. With \<open>var x interface{} = p\<close>, \<open>Copy(x)\<close>
  returns \<open>x\<close>: the pointer in the returned interface is \<open>p\<close>, address 0, and memory is
  as before, so a write through the copy is a write to \<open>n\<close>. The same pointer is copied
  to the address of a new cell holding 1 by \<open>CopyValue(p)\<close> and by \<open>Copy(p)\<close> at the
  type \<open>*int\<close>.
\<close>

theorem Copy_at_interface_type_returns_the_source_pointer:
  "Copy 5 (plainUniverse []) (TInterface ''interface {}'')
         (VInterface (Some (TPtr (TBasic IntK), VPtr (Some 0))))
         (emptyWorld\<lparr>memory := [Cell (VScalar (SInt 1))]\<rparr>)
       = Returns (VInterface (Some (TPtr (TBasic IntK), VPtr (Some 0))),
                  emptyWorld\<lparr>memory := [Cell (VScalar (SInt 1))], analysisResults := [nilResult]\<rparr>)
   \<and> (\<exists>m' rs'. CopyValue 5 (plainUniverse []) (Some (TPtr (TBasic IntK), VPtr (Some 0)))
                    (\<lparr>analysisCache = Map.empty\<rparr>, [], [Cell (VScalar (SInt 1))])
                 = Returns (Some (TPtr (TBasic IntK), VPtr (Some 1)), m', rs',
                            [Cell (VScalar (SInt 1)), Cell (VScalar (SInt 1))]))
   \<and> (\<exists>w'. Copy 5 (plainUniverse []) (TPtr (TBasic IntK)) (VPtr (Some 0))
                 (emptyWorld\<lparr>memory := [Cell (VScalar (SInt 1))]\<rparr>)
              = Returns (VPtr (Some 1), w')
           \<and> memory w' = [Cell (VScalar (SInt 1)), Cell (VScalar (SInt 1))])"
  using Copy_any_of_pointer CopyValue_of_pointer Copy_of_pointer
  by (intro conjI)

end
